theory Spec2Isabelle
  imports Complex_Main "HOL-Library.Log_Nat" "HOL-Library.AList"
begin

section \<open>A shallow embedding of filecache.go\<close>

text \<open>
  The package keeps file contents in a Go map from file names to cache items, guarded by
  a staleness policy (\<open>changed\<close>, \<open>expired\<close>, \<open>item_expired\<close>), an eviction policy
  (\<open>expire_oldest\<close>), a population routine (\<open>add_item\<close>, \<open>CacheNow\<close>), a maintenance
  loop (\<open>vaccuum\<close>) and the life-cycle operations \<open>Start\<close> and \<open>Stop\<close>.

  Every method of \<open>*FileCache\<close> becomes a function that takes the cache value and, when
  the method mutates the cache, returns the new one. What the operating system answers
  (\<open>time.Now\<close>, \<open>os.Stat\<close>, \<open>ioutil.ReadFile\<close>) is read from an explicit \<open>world\<close>.
  Run-time panics (assignment to a nil map, closing a closed channel) and blocking
  channel sends are values of the result type.
\<close>

subsection \<open>Errors and results\<close>

text \<open>The five package-level error values, and \<open>OSError\<close> for an error value that comes
  from the \<open>os\<close> or \<open>ioutil\<close> packages.\<close>

datatype error =
    InvalidCacheItem
  | ItemIsDirectory
  | ItemNotInCache
  | ItemTooLarge
  | WriteIncomplete
  | OSError string

text \<open>A call returns, panics, or blocks forever on a channel.\<close>

datatype 'a outcome = Returns 'a | Panic | Blocks

subsection \<open>Time\<close>

text \<open>
  A \<open>time.Time\<close> is an instant, here its count of nanoseconds; \<open>Equal\<close> is equality of
  instants and \<open>Before\<close> is \<open><\<close>. A \<open>time.Duration\<close> is an \<open>int64\<close> of nanoseconds and
  \<open>Time.Sub\<close> saturates at its two ends.
\<close>

type_synonym time = int

definition minDuration :: int where
  "minDuration = - (2 ^ 63)"

definition maxDuration :: int where
  "maxDuration = 2 ^ 63 - 1"

definition Second :: int where
  "Second = 1000000000"

definition time_Sub :: "time \<Rightarrow> time \<Rightarrow> int" where
  "time_Sub t u = max minDuration (min maxDuration (t - u))"

text \<open>Go's integer quotient truncates towards zero and the remainder takes the sign of
  the dividend.\<close>

definition go_quo :: "int \<Rightarrow> int \<Rightarrow> int" where
  "go_quo a b = sgn a * sgn b * (\<bar>a\<bar> div \<bar>b\<bar>)"

definition go_rem :: "int \<Rightarrow> int \<Rightarrow> int" where
  "go_rem a b = a - b * go_quo a b"

subsection \<open>The float64 arithmetic of \<open>Duration.Seconds\<close> and \<open>%0.0f\<close>\<close>

text \<open>
  \<open>expired\<close> computes \<open>strconv.Atoi(fmt.Sprintf("%0.0f", dur.Seconds()))\<close>.
  \<open>Duration.Seconds\<close> is \<open>float64(d / Second) + float64(d % Second) / 1e9\<close>: every
  operation rounds its exact result to the nearest float64, ties to the even
  significand. \<open>float64\<close> below is that rounding on the exact (rational) value, for the
  normal range (a 53-bit significand; the magnitudes met here lie between \<open>1e-9\<close> and
  \<open>1e10\<close>, far from overflow and from the subnormal numbers).
\<close>

definition pow2 :: "int \<Rightarrow> rat" where
  "pow2 k = (if 0 \<le> k then 2 ^ nat k else 1 / 2 ^ nat (- k))"

definition round_half_even :: "rat \<Rightarrow> int" where
  "round_half_even x =
     (let f = \<lfloor>x\<rfloor>; d = x - of_int f
      in if d < 1 / 2 then f
         else if 1 / 2 < d then f + 1
         else if even f then f else f + 1)"

text \<open>The binary exponent of a positive rational: \<open>pow2 (ilog2 x) \<le> x < pow2 (ilog2 x + 1)\<close>.\<close>

definition ilog2 :: "rat \<Rightarrow> int" where
  "ilog2 x = (if 1 \<le> x then bitlen \<lfloor>x\<rfloor> - 1 else - bitlen (\<lceil>1 / x\<rceil> - 1))"

definition float64 :: "rat \<Rightarrow> rat" where
  "float64 x =
     (if x = 0 then 0
      else let e = ilog2 \<bar>x\<bar>; m = round_half_even (\<bar>x\<bar> * pow2 (52 - e))
           in sgn x * of_int m * pow2 (e - 52))"

definition Duration_Seconds :: "int \<Rightarrow> rat" where
  "Duration_Seconds d =
     (let sec = go_quo d Second; nsec = go_rem d Second
      in float64 (float64 (of_int sec) + float64 (float64 (of_int nsec) / float64 1000000000)))"

text \<open>
  \<open>Sprintf("%0.0f", x)\<close> prints the decimal digits of \<open>x\<close> rounded to no fractional
  digit, an exact tie going to the even integer (\<open>0.5\<close> prints \<open>0\<close>, \<open>1.5\<close> prints \<open>2\<close>);
  \<open>Atoi\<close> reads the digits back (\<open>-0\<close> reads as \<open>0\<close>) and fails when the number does not
  fit Go's \<open>int\<close>, taken as 64 bits wide. The pair is the rounded integer, or no value.
\<close>

definition Atoi_Sprintf_0f :: "rat \<Rightarrow> int option" where
  "Atoi_Sprintf_0f x =
     (let v = round_half_even x
      in if - (2 ^ 63) \<le> v \<and> v < 2 ^ 63 then Some v else None)"

subsection \<open>The filesystem and the clock\<close>

type_synonym bytes = string

record FileInfo =
  fi_Size :: int
  fi_IsDir :: bool
  fi_ModTime :: time

text \<open>
  What the environment answers during one call: the clock, \<open>stat\<close> and the whole-file
  read. \<open>ioutil.ReadFile\<close> returns a pair \<open>(content, err)\<close>. The size that \<open>stat\<close> reports and
  the bytes that a read returns are separate answers of the system.
\<close>

record world =
  time_Now :: time
  fs_stat :: "string \<Rightarrow> error + FileInfo"
  ioutil_ReadFile :: "string \<Rightarrow> bytes \<times> error option"

text \<open>\<open>os.Stat\<close> of the empty path fails on every platform (no such file or directory).\<close>

definition os_Stat :: "world \<Rightarrow> string \<Rightarrow> error + FileInfo" where
  "os_Stat w name =
     (if name = [] then Inl (OSError ''stat : no such file or directory'')
      else fs_stat w name)"

subsection \<open>The cache\<close>

record cacheItem =
  Content :: bytes
  Size :: int
  Lastaccess :: time
  Modified :: time

text \<open>A buffered channel of names: whether it was closed, and the names it holds.\<close>

record chan =
  closed :: bool
  queue :: "string list"

definition NewCachePipeSize :: nat where
  "NewCachePipeSize = 4"

text \<open>
  \<open>items\<close> is a Go map that may be \<open>nil\<close> (\<open>None\<close>). A map is a list of entries with
  distinct keys; \<open>range\<close> visits the entries in the order of the list, which stands for
  the order Go picks (the language leaves it unspecified). \<open>in_pipe\<close> is a channel that
  may be \<open>nil\<close>.
\<close>

record FileCache =
  items :: "(string \<times> cacheItem) list option"
  in_pipe :: "chan option"
  MaxItems :: int
  MaxSize :: int
  ExpireItem :: int
  Every :: int

definition DefaultExpireItem :: int where
  "DefaultExpireItem = 300"

definition DefaultMaxSize :: int where
  "DefaultMaxSize = 32 * (1024 * 1024)"

definition DefaultMaxItems :: int where
  "DefaultMaxItems = 32"

definition DefaultEvery :: int where
  "DefaultEvery = 60"

definition NewCache :: FileCache where
  "NewCache =
     \<lparr>items = None, in_pipe = None, MaxItems = 0, MaxSize = 0, ExpireItem = 0, Every = 0\<rparr>"

definition NewDefaultCache :: FileCache where
  "NewDefaultCache =
     \<lparr>items = None, in_pipe = None, MaxItems = DefaultMaxItems, MaxSize = DefaultMaxSize,
      ExpireItem = DefaultExpireItem, Every = DefaultEvery\<rparr>"

subsection \<open>Go's map operations\<close>

text \<open>Reading a nil map behaves as reading an empty one; \<open>delete\<close> on a nil map does
  nothing; assigning to an entry of a nil map panics.\<close>

definition entries :: "FileCache \<Rightarrow> (string \<times> cacheItem) list" where
  "entries c = (case items c of None \<Rightarrow> [] | Some es \<Rightarrow> es)"

definition lookup :: "FileCache \<Rightarrow> string \<Rightarrow> cacheItem option" where
  "lookup c name = map_of (entries c) name"

definition map_delete :: "string \<Rightarrow> FileCache \<Rightarrow> FileCache" where
  "map_delete name c = c\<lparr>items := map_option (AList.delete name) (items c)\<rparr>"

definition map_assign :: "string \<Rightarrow> cacheItem \<Rightarrow> FileCache \<Rightarrow> FileCache outcome" where
  "map_assign name itm c =
     (case items c of
        None \<Rightarrow> Panic
      | Some es \<Rightarrow> Returns (c\<lparr>items := Some (AList.update name itm es)\<rparr>))"

subsection \<open>Inspection\<close>

definition Active :: "FileCache \<Rightarrow> bool" where
  "Active c = (if in_pipe c = None \<or> items c = None then False else True)"

text \<open>\<open>FileCache.Size\<close>: the number of entries (the name \<open>Size\<close> is the item's field).\<close>

definition cache_Size :: "FileCache \<Rightarrow> int" where
  "cache_Size c = int (length (entries c))"

text \<open>\<open>totalSize += itm.Size\<close> is an \<open>int64\<close> addition: it wraps.\<close>

definition wrap64 :: "int \<Rightarrow> int" where
  "wrap64 n = (n + 2 ^ 63) mod 2 ^ 64 - 2 ^ 63"

definition FileSize :: "FileCache \<Rightarrow> int" where
  "FileSize c = foldl (\<lambda>totalSize (name, itm). wrap64 (totalSize + Size itm)) 0 (entries c)"

definition StoredFiles :: "FileCache \<Rightarrow> string list" where
  "StoredFiles c = foldl (\<lambda>fileList (name, itm). fileList @ [name]) [] (entries c)"

definition InCache :: "FileCache \<Rightarrow> string \<Rightarrow> bool" where
  "InCache c name = (lookup c name \<noteq> None)"

definition GetItem :: "FileCache \<Rightarrow> string \<Rightarrow> bytes \<times> bool" where
  "GetItem c name =
     (case lookup c name of None \<Rightarrow> ([], False) | Some itm \<Rightarrow> (Content itm, True))"

definition GetItemString :: "FileCache \<Rightarrow> string \<Rightarrow> string \<times> bool" where
  "GetItemString c name =
     (case lookup c name of None \<Rightarrow> ([], False) | Some itm \<Rightarrow> (Content itm, True))"

text \<open>\<open>WriteItem\<close>: the writer answers \<open>Fprintf\<close> with the count of bytes it took and an
  error.\<close>

definition WriteItem :: "FileCache \<Rightarrow> (bytes \<Rightarrow> nat \<times> error option) \<Rightarrow> string \<Rightarrow> error option" where
  "WriteItem c wr name =
     (case lookup c name of
        None \<Rightarrow> Some ItemNotInCache
      | Some itm \<Rightarrow>
          (case wr (Content itm) of
             (n, Some e) \<Rightarrow> Some e
           | (n, None) \<Rightarrow> if int n \<noteq> Size itm then Some WriteIncomplete else None))"

subsection \<open>The staleness policy\<close>

definition changed :: "world \<Rightarrow> FileCache \<Rightarrow> string \<Rightarrow> bool" where
  "changed w c name =
     (case lookup c name of
        None \<Rightarrow> True
      | Some itm \<Rightarrow>
          (case os_Stat w name of
             Inl err \<Rightarrow> True
           | Inr fi \<Rightarrow> if Modified itm \<noteq> fi_ModTime fi then True else False))"

definition expired :: "world \<Rightarrow> FileCache \<Rightarrow> string \<Rightarrow> bool" where
  "expired w c name =
     (case lookup c name of
        None \<Rightarrow> True
      | Some itm \<Rightarrow>
          (let dur = time_Sub (time_Now w) (Lastaccess itm)
           in case Atoi_Sprintf_0f (Duration_Seconds dur) of
                None \<Rightarrow> True
              | Some sec \<Rightarrow> if sec \<ge> ExpireItem c then True else False))"

definition item_expired :: "world \<Rightarrow> FileCache \<Rightarrow> string \<Rightarrow> bool" where
  "item_expired w c name =
     (if changed w c name then True
      else if ExpireItem c \<noteq> 0 \<and> expired w c name then True
      else False)"

subsection \<open>The eviction policy\<close>

text \<open>The \<open>range\<close> loop of \<open>expire_oldest\<close>, carrying \<open>oldest\<close> and \<open>oldest_name\<close>.\<close>

fun expire_scan :: "bool \<Rightarrow> (string \<times> cacheItem) list \<Rightarrow> time \<times> string \<Rightarrow> time \<times> string" where
  "expire_scan force [] acc = acc"
| "expire_scan force ((name, itm) # rest) (oldest, oldest_name) =
     (if force \<and> oldest_name = []
      then expire_scan force rest (Lastaccess itm, name)
      else if Lastaccess itm < oldest
      then expire_scan force rest (Lastaccess itm, name)
      else expire_scan force rest (oldest, oldest_name))"

definition expire_oldest :: "world \<Rightarrow> bool \<Rightarrow> FileCache \<Rightarrow> FileCache" where
  "expire_oldest w force c =
     (case expire_scan force (entries c) (time_Now w, []) of
        (oldest, oldest_name) \<Rightarrow>
          if oldest_name \<noteq> [] then map_delete oldest_name c else c)"

subsection \<open>Population\<close>

text \<open>\<open>add_item\<close> returns its error (\<open>None\<close> is \<open>nil\<close>) and the cache as it leaves it.\<close>

definition add_item :: "world \<Rightarrow> FileCache \<Rightarrow> string \<Rightarrow> (error option \<times> FileCache) outcome" where
  "add_item w c name =
     (let ok = InCache c name; expd = item_expired w c name
      in if ok \<and> \<not> expd then Returns (None, c)
         else
           let c1 = (if ok then map_delete name c else c)
           in case os_Stat w name of
                Inl err \<Rightarrow> Returns (Some err, c1)
              | Inr fi \<Rightarrow>
                  if fi_IsDir fi then Returns (Some ItemIsDirectory, c1)
                  else if fi_Size fi > MaxSize c1 then Returns (Some ItemTooLarge, c1)
                  else
                    (case ioutil_ReadFile w name of
                       (content, Some err) \<Rightarrow> Returns (Some err, c1)
                     | (content, None) \<Rightarrow>
                         (case map_assign name
                                 \<lparr>Content = content, Size = fi_Size fi,
                                  Lastaccess = time_Now w, Modified = fi_ModTime fi\<rparr> c1 of
                            Returns c2 \<Rightarrow>
                              if \<not> InCache c2 name then Returns (Some ItemNotInCache, c2)
                              else Returns (None, c2)
                          | Panic \<Rightarrow> Panic
                          | Blocks \<Rightarrow> Blocks)))"

definition CacheNow :: "world \<Rightarrow> FileCache \<Rightarrow> string \<Rightarrow> (error option \<times> FileCache) outcome" where
  "CacheNow w c name =
     (let c1 = (if cache_Size c = MaxItems c then expire_oldest w True c else c)
      in add_item w c1 name)"

text \<open>\<open>Cache\<close> hands the name to the channel: a send on a nil channel blocks forever, a
  send on a closed channel panics, a send on a full channel blocks.\<close>

definition Cache :: "world \<Rightarrow> FileCache \<Rightarrow> string \<Rightarrow> FileCache outcome" where
  "Cache w c name =
     (let c1 = (if cache_Size c = MaxItems c then expire_oldest w True c else c)
      in case in_pipe c1 of
           None \<Rightarrow> Blocks
         | Some ch \<Rightarrow>
             if closed ch then Panic
             else if length (queue ch) \<ge> NewCachePipeSize then Blocks
             else Returns (c1\<lparr>in_pipe := Some (ch\<lparr>queue := queue ch @ [name]\<rparr>)\<rparr>))"

subsection \<open>Reading through the cache\<close>

text \<open>
  A read returns \<open>(content, err)\<close>, the cache as the call leaves it, and the names it
  handed to a new goroutine running \<open>Cache\<close> (which runs later, not inside the call).

  In \<open>ReadFileString\<close> the statement \<open>raw, err := ioutil.ReadFile(name)\<close> stands inside the
  \<open>else\<close> block, so it declares a new \<open>err\<close> there; the assignment
  \<open>err = ItemNotInCache\<close> writes that inner variable, and the function's result \<open>err\<close>
  keeps its zero value \<open>nil\<close>.
\<close>

definition ReadFile ::
  "world \<Rightarrow> FileCache \<Rightarrow> string \<Rightarrow> (bytes \<times> error option) \<times> FileCache \<times> string list" where
  "ReadFile w c name =
     (if InCache c name then ((fst (GetItem c name), None), c, [])
      else
        (case ioutil_ReadFile w name of
           (content, err) \<Rightarrow>
             ((content, if err = None then Some ItemNotInCache else err), c, [name])))"

definition ReadFileString ::
  "world \<Rightarrow> FileCache \<Rightarrow> string \<Rightarrow> (string \<times> error option) \<times> FileCache \<times> string list" where
  "ReadFileString w c name =
     (if InCache c name then ((fst (GetItemString c name), None), c, [])
      else
        (case ioutil_ReadFile w name of
           (raw, inner_err) \<Rightarrow>
             (((if inner_err = None then raw else []), None), c, [name])))"

subsection \<open>Activation and deactivation\<close>

text \<open>\<open>close\<close> of a closed channel panics. \<open>Start\<close> also starts the two goroutines
  \<open>item_listener\<close> and \<open>vaccuum\<close>, which run later.\<close>

definition Start :: "FileCache \<Rightarrow> FileCache outcome" where
  "Start c =
     (case in_pipe c of
        Some ch \<Rightarrow>
          if closed ch then Panic
          else Returns (c\<lparr>items := Some [], in_pipe := Some \<lparr>closed = False, queue = []\<rparr>\<rparr>)
      | None \<Rightarrow> Returns (c\<lparr>items := Some [], in_pipe := Some \<lparr>closed = False, queue = []\<rparr>\<rparr>))"

definition Stop :: "FileCache \<Rightarrow> FileCache outcome" where
  "Stop c =
     (case in_pipe c of
        Some ch \<Rightarrow>
          if closed ch then Panic
          else Returns
                 ((foldl (\<lambda>c' name. map_delete name c') (c\<lparr>in_pipe := Some (ch\<lparr>closed := True\<rparr>)\<rparr>)
                     (map fst (entries c)))
                  \<lparr>items := None\<rparr>)
      | None \<Rightarrow>
          Returns ((foldl (\<lambda>c' name. map_delete name c') c (map fst (entries c)))\<lparr>items := None\<rparr>))"

definition Remove :: "FileCache \<Rightarrow> string \<Rightarrow> (bool \<times> error option) \<times> FileCache" where
  "Remove c name =
     (if lookup c name = None then ((False, None), c)
      else let c1 = map_delete name c
           in ((if lookup c1 name \<noteq> None then False else True, None), c1))"

subsection \<open>The maintenance loop\<close>

text \<open>
  \<open>vaccuum\<close> returns at once when \<open>Every < 1\<close>; otherwise it repeats, every \<open>Every\<close>
  seconds, the pass below: it returns when \<open>items\<close> is \<open>nil\<close>, deletes every expired key
  and then evicts while the count exceeds \<open>MaxItems\<close>. The first \<open>range\<close> loop deletes
  only the key it is visiting, so it visits every key of the map once. The second loop
  may run forever, so it is a partial function: \<open>None\<close> means that it does not return.
\<close>

definition sweep :: "world \<Rightarrow> FileCache \<Rightarrow> FileCache" where
  "sweep w c =
     foldl (\<lambda>c' name. if item_expired w c' name then map_delete name c' else c') c
       (map fst (entries c))"

partial_function (option) evict_loop :: "world \<Rightarrow> FileCache \<Rightarrow> FileCache option" where
  "evict_loop w c =
     (if cache_Size c > MaxItems c then evict_loop w (expire_oldest w True c) else Some c)"

datatype cycle = LoopReturn | LoopAgain FileCache

definition vaccuum_cycle :: "world \<Rightarrow> FileCache \<Rightarrow> cycle option" where
  "vaccuum_cycle w c =
     (if items c = None then Some LoopReturn
      else map_option LoopAgain (evict_loop w (sweep w c)))"

subsection \<open>Concrete states\<close>

text \<open>A file \<open>a\<close> of three bytes, last modified at instant 200, read 0.6 seconds after
  instant 0; no other path exists.\<close>

definition file_a :: FileInfo where
  "file_a = \<lparr>fi_Size = 3, fi_IsDir = False, fi_ModTime = 200\<rparr>"

definition world_a :: world where
  "world_a =
     \<lparr>time_Now = 600000000,
      fs_stat = (\<lambda>n. if n = ''a'' then Inr file_a
                       else Inl (OSError ''no such file or directory'')),
      ioutil_ReadFile = (\<lambda>n. if n = ''a'' then (''abc'', None)
                               else ([], Some (OSError ''no such file or directory'')))\<rparr>"

text \<open>An entry for \<open>a\<close> populated at instant 0 from an earlier version of the file.\<close>

definition item_old :: cacheItem where
  "item_old = \<lparr>Content = ''ab'', Size = 2, Lastaccess = 0, Modified = 100\<rparr>"

definition open_chan :: chan where
  "open_chan = \<lparr>closed = False, queue = []\<rparr>"

definition cache_a :: FileCache where
  "cache_a =
     \<lparr>items = Some [(''a'', item_old)], in_pipe = Some open_chan,
      MaxItems = 1, MaxSize = 10, ExpireItem = 0, Every = 0\<rparr>"

text \<open>A started cache with the default limits and no entry.\<close>

definition cache_empty :: FileCache where
  "cache_empty = NewDefaultCache\<lparr>items := Some [], in_pipe := Some open_chan\<rparr>"

text \<open>\<open>cache_a\<close> with entries expiring after one second, and the world one second after
  instant 0.\<close>

definition cache_b :: FileCache where
  "cache_b = cache_a\<lparr>ExpireItem := 1\<rparr>"

definition world_1s :: world where
  "world_1s = world_a\<lparr>time_Now := 1000000000\<rparr>"

text \<open>A path \<open>p\<close> for which \<open>stat\<close> reports size 0 while a read returns three bytes (a file
  of \<open>/proc\<close> on Linux answers so, and so does a file that grows between the two calls),
  and the entry that \<open>add_item\<close> builds from it.\<close>

definition file_p :: FileInfo where
  "file_p = \<lparr>fi_Size = 0, fi_IsDir = False, fi_ModTime = 200\<rparr>"

definition world_p :: world where
  "world_p =
     \<lparr>time_Now = 600000000,
      fs_stat = (\<lambda>n. if n = ''p'' then Inr file_p
                       else Inl (OSError ''no such file or directory'')),
      ioutil_ReadFile = (\<lambda>n. if n = ''p'' then (''abc'', None)
                               else ([], Some (OSError ''no such file or directory'')))\<rparr>"

definition item_p :: cacheItem where
  "item_p = \<lparr>Content = ''abc'', Size = 0, Lastaccess = 600000000, Modified = 200\<rparr>"

text \<open>\<open>cache_a\<close> with a size limit below the three bytes of \<open>a\<close>.\<close>

definition cache_small :: FileCache where
  "cache_small = cache_a\<lparr>MaxSize := 2\<rparr>"

text \<open>The entry that \<open>add_item\<close> builds for \<open>a\<close> in \<open>world_a\<close>; a started \<open>NewCache\<close>
  (\<open>MaxItems = 0\<close>) that accepts ten bytes; caches holding two entries of the same age,
  with \<open>MaxItems\<close> 1 and 2; and a cache holding a fresh entry for \<open>a\<close> and an entry for
  the missing file \<open>b\<close>.\<close>

definition item_new :: cacheItem where
  "item_new = \<lparr>Content = ''abc'', Size = 3, Lastaccess = 600000000, Modified = 200\<rparr>"

definition cache_zero :: FileCache where
  "cache_zero = NewCache\<lparr>items := Some [], in_pipe := Some open_chan, MaxSize := 10\<rparr>"

definition cache_over :: FileCache where
  "cache_over = cache_a\<lparr>items := Some [(''b'', item_old), (''c'', item_old)]\<rparr>"

definition cache_two :: FileCache where
  "cache_two = cache_a\<lparr>items := Some [(''b'', item_old), (''c'', item_old)], MaxItems := 2\<rparr>"

text \<open>\<open>cache_two\<close> with a size limit below the three bytes of \<open>a\<close>, and \<open>cache_two\<close> with room
  for a third entry.\<close>

definition cache_two_small :: FileCache where
  "cache_two_small = cache_two\<lparr>MaxSize := 2\<rparr>"

definition cache_three :: FileCache where
  "cache_three = cache_two\<lparr>MaxItems := 3\<rparr>"

definition cache_ab :: FileCache where
  "cache_ab = cache_a\<lparr>items := Some [(''a'', item_new), (''b'', item_old)]\<rparr>"

section \<open>The staleness decision\<close>

text \<open>
  Claim C1. For a cached key, \<open>item_expired\<close> is true exactly when the file changed on
  disk (\<open>stat\<close> fails, or the live modification time differs from the stored one) or
  \<open>ExpireItem\<close> is nonzero and the entry is aged out. The changed-on-disk check decides
  first: a changed or vanished file makes the entry stale whatever \<open>ExpireItem\<close> and the
  entry's age are.
\<close>

theorem item_expired_combined:
  assumes "lookup c name = Some itm"
  shows "(item_expired w c name \<longleftrightarrow>
            changed w c name \<or> (ExpireItem c \<noteq> 0 \<and> expired w c name))
       \<and> (changed w c name \<longleftrightarrow>
            (\<exists>err. os_Stat w name = Inl err)
          \<or> (\<exists>fi. os_Stat w name = Inr fi \<and> Modified itm \<noteq> fi_ModTime fi))
       \<and> (changed w c name \<longrightarrow> item_expired w c name)"
  using assms by (auto simp: item_expired_def changed_def split: sum.splits)

theorem item_expired_combined_witness:
  "lookup cache_a ''a'' = Some item_old \<and> ExpireItem cache_a = 0
   \<and> changed world_a cache_a ''a'' \<and> item_expired world_a cache_a ''a''"
  using item_expired_combined [of cache_a "''a''" item_old world_a]
  by (simp add: lookup_def entries_def cache_a_def changed_def os_Stat_def world_a_def
      file_a_def item_old_def)

section \<open>Reads\<close>

text \<open>
  Claim C5. For a key that is not cached, \<open>ReadFile\<close> returns the file's content with
  \<open>ItemNotInCache\<close> when the read succeeds and the read's own error when it fails.
  \<open>ReadFileString\<close> does neither: its result \<open>err\<close> is \<open>nil\<close> in both cases, because the
  \<open>err\<close> it assigns is the variable declared inside the \<open>else\<close> block.
\<close>

theorem ReadFileString_returns_nil:
  "\<not> InCache cache_empty ''a''
   \<and> ioutil_ReadFile world_a ''a'' = (''abc'', None)
   \<and> fst (ReadFile world_a cache_empty ''a'') = (''abc'', Some ItemNotInCache)
   \<and> fst (ReadFileString world_a cache_empty ''a'') = (''abc'', None)
   \<and> \<not> InCache cache_empty ''b''
   \<and> ioutil_ReadFile world_a ''b'' = ([], Some (OSError ''no such file or directory''))
   \<and> fst (ReadFile world_a cache_empty ''b'') = ([], Some (OSError ''no such file or directory''))
   \<and> fst (ReadFileString world_a cache_empty ''b'') = ([], None)"
  by (simp add: ReadFile_def ReadFileString_def InCache_def lookup_def entries_def
      cache_empty_def NewDefaultCache_def world_a_def)

section \<open>The inert cache\<close>

text \<open>
  Claim C10. A cache whose \<open>items\<close> map is \<open>nil\<close> (as \<open>NewCache\<close> and \<open>NewDefaultCache\<close>
  return it, and as every \<open>Stop\<close> that returns leaves it) answers every accessor as an
  empty cache does: \<open>Size\<close> and \<open>FileSize\<close> are 0, \<open>StoredFiles\<close> is empty, \<open>InCache\<close> is
  false and \<open>GetItem\<close> finds nothing, for every key.
\<close>

theorem inert_accessors:
  "items NewCache = None \<and> items NewDefaultCache = None
   \<and> (\<forall>c c'. Stop c = Returns c' \<longrightarrow> items c' = None)
   \<and> (\<forall>c. items c = None \<longrightarrow>
          cache_Size c = 0 \<and> FileSize c = 0 \<and> StoredFiles c = []
        \<and> (\<forall>name. \<not> InCache c name) \<and> (\<forall>name. GetItem c name = ([], False)))"
  by (auto simp: NewCache_def NewDefaultCache_def Stop_def cache_Size_def FileSize_def
      StoredFiles_def InCache_def GetItem_def lookup_def entries_def
      split: option.splits if_splits)

theorem inert_accessors_witness:
  "cache_Size NewCache = 0 \<and> FileSize NewCache = 0 \<and> StoredFiles NewCache = []
   \<and> InCache NewCache ''a'' = False \<and> GetItem NewCache ''a'' = ([], False)
   \<and> (\<exists>c'. Stop cache_a = Returns c' \<and> cache_Size c' = 0 \<and> GetItem c' ''a'' = ([], False))"
proof -
  have stop: "Stop cache_a = Returns (cache_a\<lparr>in_pipe := Some (open_chan\<lparr>closed := True\<rparr>), items := None\<rparr>)"
    by (simp add: Stop_def cache_a_def open_chan_def entries_def map_delete_def)
  from inert_accessors have
    a: "\<And>c. items c = None \<Longrightarrow> cache_Size c = 0 \<and> FileSize c = 0 \<and> StoredFiles c = []
          \<and> \<not> InCache c ''a'' \<and> GetItem c ''a'' = ([], False)"
    and b: "items NewCache = None"
    and c: "\<And>c c'. Stop c = Returns c' \<Longrightarrow> items c' = None"
    by blast+
  from c [OF stop] a b stop show ?thesis by auto
qed

section \<open>Activation and deactivation\<close>

text \<open>
  Claim C6. \<open>Stop\<close> on a cache that was never started returns, and so does a second
  \<open>Start\<close> on a started cache. \<open>Stop\<close> closes the channel and keeps it in \<open>in_pipe\<close>, so
  on a cache that was started and stopped both \<open>Stop\<close> and \<open>Start\<close> close a closed
  channel: they panic.
\<close>

theorem Stop_then_Stop_panics:
  "Stop NewCache = Returns NewCache
   \<and> (\<exists>c1 c2. Start NewCache = Returns c1 \<and> Start c1 = Returns c1
        \<and> Stop c1 = Returns c2 \<and> Active c2 = False
        \<and> Stop c2 = Panic \<and> Start c2 = Panic)"
  by (simp add: Start_def Stop_def NewCache_def Active_def entries_def)

section \<open>Age-based expiry\<close>

subsection \<open>Rounding to float64\<close>

lemma pow2_powi: "pow2 k = 2 powi k"
  by (simp add: pow2_def power_int_def power_one_over [symmetric] inverse_eq_divide)

lemma pow2_pos: "0 < pow2 k"
  by (simp add: pow2_powi zero_less_power_int)

lemma pow2_add: "pow2 (a + b) = pow2 a * pow2 b"
  by (simp add: pow2_powi power_int_add)

lemma pow2_mono: "a \<le> b \<Longrightarrow> pow2 a \<le> pow2 b"
  by (simp add: pow2_powi power_int_increasing)

lemma pow2_52: "pow2 52 = 2 ^ 52" and pow2_53: "pow2 53 = 2 ^ 53" and pow2_0: "pow2 0 = 1"
  by (simp_all add: pow2_def)

lemma rhe_int: "round_half_even (of_int n) = n"
  by (simp add: round_half_even_def)

lemma rhe_floor: "\<lfloor>x\<rfloor> \<le> round_half_even x" "round_half_even x \<le> \<lfloor>x\<rfloor> + 1"
  by (simp_all add: round_half_even_def Let_def)

lemma rhe_mono:
  assumes "x \<le> y"
  shows "round_half_even x \<le> round_half_even y"
proof (cases "\<lfloor>x\<rfloor> = \<lfloor>y\<rfloor>")
  case True
  with assms show ?thesis
    by (auto simp: round_half_even_def Let_def)
next
  case False
  with assms have "\<lfloor>x\<rfloor> + 1 \<le> \<lfloor>y\<rfloor>"
    using floor_mono [of x y] by linarith
  with rhe_floor(2) [of x] rhe_floor(1) [of y] show ?thesis by linarith
qed

lemma ilog2_ge1:
  assumes "1 \<le> x"
  shows "pow2 (ilog2 x) \<le> x" and "x < pow2 (ilog2 x + 1)"
proof -
  from assms have n: "0 < \<lfloor>x\<rfloor>" by linarith
  then have b1: "1 \<le> bitlen \<lfloor>x\<rfloor>" by (simp add: bitlen_alt_def)
  from bitlen_bounds [OF n]
  have lo: "2 ^ nat (bitlen \<lfloor>x\<rfloor> - 1) \<le> \<lfloor>x\<rfloor>" and hi: "\<lfloor>x\<rfloor> < 2 ^ nat (bitlen \<lfloor>x\<rfloor>)"
    by simp_all
  from lo have "rat_of_int (2 ^ nat (bitlen \<lfloor>x\<rfloor> - 1)) \<le> of_int \<lfloor>x\<rfloor>"
    by (simp only: of_int_le_iff)
  also have "\<dots> \<le> x" by simp
  finally have "2 ^ nat (bitlen \<lfloor>x\<rfloor> - 1) \<le> x" by simp
  with b1 assms show "pow2 (ilog2 x) \<le> x" by (simp add: ilog2_def pow2_def)
  from hi have "\<lfloor>x\<rfloor> + 1 \<le> 2 ^ nat (bitlen \<lfloor>x\<rfloor>)" by simp
  then have "rat_of_int (\<lfloor>x\<rfloor> + 1) \<le> of_int (2 ^ nat (bitlen \<lfloor>x\<rfloor>))"
    by (simp only: of_int_le_iff)
  moreover have "x < rat_of_int (\<lfloor>x\<rfloor> + 1)" by linarith
  ultimately have "x < 2 ^ nat (bitlen \<lfloor>x\<rfloor>)" by simp
  with b1 assms show "x < pow2 (ilog2 x + 1)" by (simp add: ilog2_def pow2_def)
qed

lemma ilog2_lt1:
  assumes "0 < x" "x < 1"
  shows "pow2 (ilog2 x) \<le> x" and "x < pow2 (ilog2 x + 1)"
proof -
  define m where "m = \<lceil>1 / x\<rceil> - 1"
  define k where "k = bitlen m"
  from assms have "1 < 1 / x" by simp
  then have m1: "0 < m" unfolding m_def by linarith
  then have k1: "1 \<le> k" by (simp add: k_def bitlen_alt_def)
  from bitlen_bounds [OF m1]
  have lo: "2 ^ nat (k - 1) \<le> m" and hi: "m < 2 ^ nat k"
    by (simp_all add: k_def)
  have il: "ilog2 x = - k" using assms by (simp add: ilog2_def k_def m_def)
  have mlt: "rat_of_int m < 1 / x" unfolding m_def by linarith
  have mge: "1 / x \<le> rat_of_int (m + 1)" unfolding m_def by simp
  from hi have "m + 1 \<le> 2 ^ nat k" by simp
  then have "rat_of_int (m + 1) \<le> of_int (2 ^ nat k)" by (simp only: of_int_le_iff)
  with mge have "1 / x \<le> 2 ^ nat k" by simp
  with assms have "1 \<le> 2 ^ nat k * x" by (simp add: field_simps)
  then have "1 / 2 ^ nat k \<le> x" by (simp add: field_simps)
  with k1 show "pow2 (ilog2 x) \<le> x" by (simp add: il pow2_def)
  from lo have "rat_of_int (2 ^ nat (k - 1)) \<le> of_int m" by (simp only: of_int_le_iff)
  moreover have "rat_of_int (2 ^ nat (k - 1)) = 2 ^ nat (k - 1)" by simp
  ultimately have "2 ^ nat (k - 1) < 1 / x" using mlt by linarith
  with assms have "x * 2 ^ nat (k - 1) < 1" by (simp add: field_simps)
  then have "x < 1 / 2 ^ nat (k - 1)" by (simp add: field_simps)
  moreover have "pow2 (- k + 1) = 1 / 2 ^ nat (k - 1)"
    using k1 by (cases "k = 1") (simp_all add: pow2_def)
  ultimately show "x < pow2 (ilog2 x + 1)" by (simp add: il)
qed

lemma ilog2_bounds:
  assumes "0 < x"
  shows "pow2 (ilog2 x) \<le> x" and "x < pow2 (ilog2 x + 1)"
  using assms ilog2_ge1 [of x] ilog2_lt1 [of x] by (cases "1 \<le> x"; simp)+

lemma pow2_less_cancel: "pow2 a < pow2 b \<Longrightarrow> a < b"
  using pow2_mono [of b a] by (cases "a < b") auto

lemma ilog2_mono:
  assumes "0 < x" "x \<le> y"
  shows "ilog2 x \<le> ilog2 y"
proof -
  have "pow2 (ilog2 x) \<le> x" using assms ilog2_bounds(1) by simp
  also have "x \<le> y" by fact
  also have "y < pow2 (ilog2 y + 1)" using assms ilog2_bounds(2) [of y] by simp
  finally have "ilog2 x < ilog2 y + 1" by (rule pow2_less_cancel)
  then show ?thesis by simp
qed

text \<open>The significand and the value of a rounded positive number.\<close>

lemma float64_pos_eq:
  assumes "0 < x"
  shows "float64 x = of_int (round_half_even (x * pow2 (52 - ilog2 x))) * pow2 (ilog2 x - 52)"
  using assms by (simp add: float64_def Let_def)

lemma float64_pos_bounds:
  assumes "0 < x"
  shows "pow2 (ilog2 x) \<le> float64 x" and "float64 x \<le> pow2 (ilog2 x + 1)"
proof -
  let ?e = "ilog2 x"
  let ?s = "pow2 (52 - ?e)"
  have s: "0 < ?s" by (rule pow2_pos)
  have "pow2 ?e * ?s \<le> x * ?s" using ilog2_bounds(1) [OF assms] s by simp
  moreover have "pow2 ?e * ?s = pow2 52" by (simp add: pow2_add [symmetric])
  ultimately have a: "2 ^ 52 \<le> x * ?s" by (simp add: pow2_52)
  have "x * ?s \<le> pow2 (?e + 1) * ?s" using ilog2_bounds(2) [OF assms] s by simp
  moreover have "pow2 (?e + 1) * ?s = pow2 53" by (simp add: pow2_add [symmetric])
  ultimately have b: "x * ?s \<le> 2 ^ 53" by (simp add: pow2_53)
  have "round_half_even (of_int (2 ^ 52)) \<le> round_half_even (x * ?s)"
    by (rule rhe_mono) (use a in simp)
  then have a': "2 ^ 52 \<le> round_half_even (x * ?s)" by (simp only: rhe_int)
  have "round_half_even (x * ?s) \<le> round_half_even (of_int (2 ^ 53))"
    by (rule rhe_mono) (use b in simp)
  then have b': "round_half_even (x * ?s) \<le> 2 ^ 53" by (simp only: rhe_int)
  have t: "0 < pow2 (?e - 52)" by (rule pow2_pos)
  from a' have "rat_of_int (2 ^ 52) \<le> of_int (round_half_even (x * ?s))"
    by (simp only: of_int_le_iff)
  then have "2 ^ 52 * pow2 (?e - 52) \<le> float64 x"
    using t by (simp add: float64_pos_eq [OF assms])
  moreover have "pow2 52 * pow2 (?e - 52) = pow2 ?e" by (simp add: pow2_add [symmetric])
  then have "2 ^ 52 * pow2 (?e - 52) = pow2 ?e" by (simp add: pow2_52)
  ultimately show "pow2 ?e \<le> float64 x" by simp
  from b' have "rat_of_int (round_half_even (x * ?s)) \<le> of_int (2 ^ 53)"
    by (simp only: of_int_le_iff)
  then have "float64 x \<le> 2 ^ 53 * pow2 (?e - 52)"
    using t by (simp add: float64_pos_eq [OF assms])
  moreover have "pow2 53 * pow2 (?e - 52) = pow2 (?e + 1)"
    by (simp add: pow2_add [symmetric] add.commute)
  then have "2 ^ 53 * pow2 (?e - 52) = pow2 (?e + 1)" by (simp add: pow2_53)
  ultimately show "float64 x \<le> pow2 (?e + 1)" by simp
qed

lemma float64_pos_mono:
  assumes "0 < x" "x \<le> y"
  shows "float64 x \<le> float64 y"
proof (cases "ilog2 x = ilog2 y")
  case True
  from assms have y: "0 < y" by simp
  have "x * pow2 (52 - ilog2 y) \<le> y * pow2 (52 - ilog2 y)"
    using assms pow2_pos [of "52 - ilog2 y"] by simp
  then have "round_half_even (x * pow2 (52 - ilog2 y)) \<le> round_half_even (y * pow2 (52 - ilog2 y))"
    by (rule rhe_mono)
  then have "rat_of_int (round_half_even (x * pow2 (52 - ilog2 y)))
           \<le> of_int (round_half_even (y * pow2 (52 - ilog2 y)))"
    by (simp only: of_int_le_iff)
  then show ?thesis
    using pow2_pos [of "ilog2 y - 52"]
    by (simp add: float64_pos_eq [OF assms(1)] float64_pos_eq [OF y] True)
next
  case False
  from assms have y: "0 < y" by simp
  from False ilog2_mono [OF assms] have "ilog2 x + 1 \<le> ilog2 y" by simp
  then have "pow2 (ilog2 x + 1) \<le> pow2 (ilog2 y)" by (rule pow2_mono)
  with float64_pos_bounds(2) [OF assms(1)] float64_pos_bounds(1) [OF y]
  show ?thesis by linarith
qed

lemma float64_minus: "float64 (- x) = - float64 x"
  by (simp add: float64_def Let_def)

lemma float64_zero: "float64 0 = 0"
  by (simp add: float64_def)

lemma float64_pos: "0 < x \<Longrightarrow> 0 < float64 x"
  using float64_pos_bounds(1) [of x] pow2_pos [of "ilog2 x"] by simp

lemma float64_mono:
  assumes "x \<le> y"
  shows "float64 x \<le> float64 y"
proof -
  consider "0 < x" | "x \<le> 0" "0 < y" | "x = 0" "y = 0" | "x < 0" "y = 0" | "y < 0"
    using assms by linarith
  then show ?thesis
  proof cases
    case 1
    from 1 assms show ?thesis by (rule float64_pos_mono)
  next
    case 2
    have "float64 x \<le> 0"
    proof (cases "x = 0")
      case True
      then show ?thesis by (simp add: float64_zero)
    next
      case False
      with 2 have "0 < - x" by simp
      from float64_pos [OF this] show ?thesis by (simp add: float64_minus)
    qed
    with float64_pos [OF 2(2)] show ?thesis by simp
  next
    case 3
    then show ?thesis by simp
  next
    case 4
    then have "0 < - x" by simp
    from float64_pos [OF this] 4 show ?thesis by (simp add: float64_minus float64_zero)
  next
    case 5
    with assms have "0 < - y" "- y \<le> - x" by simp_all
    from float64_pos_mono [OF this] show ?thesis by (simp add: float64_minus)
  qed
qed

lemma float64_int_pos:
  assumes "0 < n" "n < 2 ^ 53"
  shows "float64 (of_int n) = of_int n"
proof -
  let ?x = "rat_of_int n"
  let ?e = "ilog2 ?x"
  have x: "0 < ?x" using assms by simp
  have "pow2 0 \<le> ?x" using assms by (simp add: pow2_0)
  also have "?x < pow2 (?e + 1)" by (rule ilog2_bounds(2) [OF x])
  finally have e0: "0 \<le> ?e" using pow2_less_cancel by fastforce
  have "pow2 ?e \<le> ?x" by (rule ilog2_bounds(1) [OF x])
  also have "?x < pow2 53"
  proof -
    from assms have "rat_of_int n < of_int (2 ^ 53)" by (simp only: of_int_less_iff)
    then show ?thesis by (simp add: pow2_53)
  qed
  finally have e52: "?e \<le> 52" using pow2_less_cancel by fastforce
  have "pow2 (52 - ?e) = of_int (2 ^ nat (52 - ?e))" using e52 by (simp add: pow2_def)
  then have "?x * pow2 (52 - ?e) = of_int (n * 2 ^ nat (52 - ?e))" by simp
  then have "round_half_even (?x * pow2 (52 - ?e)) = n * 2 ^ nat (52 - ?e)"
    by (simp only: rhe_int)
  then have "float64 ?x = ?x * (pow2 (52 - ?e) * pow2 (?e - 52))"
    using e52 by (simp add: float64_pos_eq [OF x] pow2_def)
  also have "pow2 (52 - ?e) * pow2 (?e - 52) = 1"
    by (simp add: pow2_add [symmetric] pow2_0)
  finally show ?thesis by simp
qed

lemma float64_int:
  assumes "\<bar>n\<bar> < 2 ^ 53"
  shows "float64 (of_int n) = of_int n"
proof -
  consider "n = 0" | "0 < n" | "n < 0" by linarith
  then show ?thesis
  proof cases
    case 1
    then show ?thesis by (simp add: float64_zero)
  next
    case 2
    with assms show ?thesis by (simp add: float64_int_pos)
  next
    case 3
    with assms have "0 < - n" "- n < 2 ^ 53" by simp_all
    from float64_int_pos [OF this] show ?thesis
      using float64_minus [of "of_int (- n)"] by simp
  qed
qed

subsection \<open>Whole seconds of a duration\<close>

lemma go_quo_minus: "go_quo (- a) b = - go_quo a b"
  by (simp add: go_quo_def sgn_minus)

lemma go_rem_minus: "go_rem (- a) b = - go_rem a b"
  by (simp add: go_rem_def go_quo_minus)

lemma Duration_Seconds_minus: "Duration_Seconds (- d) = - Duration_Seconds d"
proof -
  define a where "a = float64 (rat_of_int (go_quo d Second))"
  define b where "b = float64 (float64 (rat_of_int (go_rem d Second)) / float64 1000000000)"
  have "Duration_Seconds (- d) = float64 (- a + - b)"
    by (simp add: Duration_Seconds_def Let_def go_quo_minus go_rem_minus float64_minus a_def b_def)
  also have "- a + - b = - (a + b)" by simp
  also have "float64 (- (a + b)) = - float64 (a + b)" by (rule float64_minus)
  finally show ?thesis by (simp add: Duration_Seconds_def Let_def a_def b_def)
qed

lemma float64_giga: "float64 1000000000 = 1000000000"
  using float64_int [of 1000000000] by simp

lemma float64_one: "float64 1 = 1"
  using float64_int [of 1] by simp

lemma go_quo_nonneg: "0 \<le> d \<Longrightarrow> go_quo d Second = d div Second"
  by (cases "d = 0") (simp_all add: go_quo_def Second_def)

lemma go_rem_nonneg: "0 \<le> d \<Longrightarrow> go_rem d Second = d mod Second"
  by (simp add: go_rem_def go_quo_nonneg minus_mult_div_eq_mod)

lemma frac_le_one:
  assumes "n < Second"
  shows "float64 (float64 (of_int n) / float64 1000000000) \<le> 1"
proof -
  have "float64 (of_int n) \<le> float64 (of_int Second)"
    by (rule float64_mono) (use assms in simp)
  then have "float64 (of_int n) \<le> 1000000000"
    using float64_giga by (simp add: Second_def)
  then have "float64 (of_int n) / float64 1000000000 \<le> 1"
    by (simp add: float64_giga)
  from float64_mono [OF this] show ?thesis by (simp add: float64_one)
qed

lemma frac_le_zero:
  assumes "n \<le> 0"
  shows "float64 (float64 (of_int n) / float64 1000000000) \<le> 0"
proof -
  have "float64 (of_int n) \<le> float64 0"
    by (rule float64_mono) (use assms in simp)
  then have "float64 (of_int n) / float64 1000000000 \<le> 0"
    by (simp add: float64_giga float64_zero divide_le_0_iff)
  from float64_mono [OF this] show ?thesis by (simp add: float64_zero)
qed

lemma Duration_Seconds_upper:
  assumes "d \<le> k * Second" "\<bar>k\<bar> + 1 < 2 ^ 53"
  shows "Duration_Seconds d \<le> of_int k"
proof -
  define sec where "sec = go_quo d Second"
  define nsec where "nsec = go_rem d Second"
  define frac where "frac = float64 (float64 (of_int nsec) / float64 1000000000)"
  have DS: "Duration_Seconds d = float64 (float64 (of_int sec) + frac)"
    by (simp add: Duration_Seconds_def Let_def sec_def nsec_def frac_def)
  have fk: "float64 (of_int k) = of_int k" using assms(2) by (intro float64_int) linarith
  have fk1: "float64 (of_int (k - 1)) = of_int (k - 1)"
    using assms(2) by (intro float64_int) linarith
  have "float64 (of_int sec) + frac \<le> of_int k"
  proof (cases "0 \<le> d")
    case True
    then have sec: "sec = d div Second" and nsec: "nsec = d mod Second"
      by (simp_all add: sec_def nsec_def go_quo_nonneg go_rem_nonneg)
    have "d div Second \<le> k * Second div Second"
      using assms(1) by (intro zdiv_mono1) (simp_all add: Second_def)
    then have le: "sec \<le> k" by (simp add: sec Second_def)
    show ?thesis
    proof (cases "sec = k")
      case True
      have "d = sec * Second + nsec" by (simp add: sec nsec)
      with True assms(1) have "nsec \<le> 0" by simp
      moreover have "0 \<le> nsec" by (simp add: nsec Second_def)
      ultimately have "nsec = 0" by simp
      then have "frac = 0" by (simp add: frac_def float64_zero)
      with True fk show ?thesis by simp
    next
      case False
      with le have "sec \<le> k - 1" by simp
      then have "rat_of_int sec \<le> of_int (k - 1)" by (simp only: of_int_le_iff)
      from float64_mono [OF this] fk1 have "float64 (of_int sec) \<le> of_int k - 1" by simp
      moreover have "nsec < Second" by (simp add: nsec Second_def)
      then have "frac \<le> 1" unfolding frac_def by (rule frac_le_one)
      ultimately show ?thesis by simp
    qed
  next
    case False
    then have neg: "0 \<le> - d" by simp
    have sec: "sec = - ((- d) div Second)"
      using go_quo_nonneg [OF neg] go_quo_minus [of d Second] by (simp add: sec_def)
    have nsec: "nsec = - ((- d) mod Second)"
      using go_rem_nonneg [OF neg] go_rem_minus [of d Second] by (simp add: nsec_def)
    have "nsec \<le> 0" by (simp add: nsec Second_def)
    then have f0: "frac \<le> 0" unfolding frac_def by (rule frac_le_zero)
    have "(- k) * Second div Second \<le> (- d) div Second"
      using assms(1) by (intro zdiv_mono1) (simp_all add: Second_def)
    then have "sec \<le> k" by (simp add: sec Second_def)
    then have "rat_of_int sec \<le> of_int k" by (simp only: of_int_le_iff)
    from float64_mono [OF this] fk have "float64 (of_int sec) \<le> of_int k" by simp
    with f0 show ?thesis by simp
  qed
  from float64_mono [OF this] fk show ?thesis by (simp add: DS)
qed

lemma Duration_Seconds_lower:
  assumes "k * Second \<le> d" "\<bar>k\<bar> + 1 < 2 ^ 53"
  shows "of_int k \<le> Duration_Seconds d"
proof -
  have "Duration_Seconds (- d) \<le> of_int (- k)"
    by (rule Duration_Seconds_upper) (use assms in simp_all)
  then show ?thesis by (simp add: Duration_Seconds_minus)
qed

lemma time_Sub_range: "minDuration \<le> time_Sub t u" "time_Sub t u \<le> maxDuration"
  by (simp_all add: time_Sub_def minDuration_def maxDuration_def)

lemma whole_seconds_range:
  assumes "minDuration \<le> d" "d \<le> maxDuration"
  shows "- 9223372037 \<le> round_half_even (Duration_Seconds d)"
    and "round_half_even (Duration_Seconds d) \<le> 9223372037"
proof -
  have "of_int (- 9223372037) \<le> Duration_Seconds d"
    by (rule Duration_Seconds_lower) (use assms in \<open>simp_all add: minDuration_def Second_def\<close>)
  from rhe_mono [OF this] show "- 9223372037 \<le> round_half_even (Duration_Seconds d)"
    by (simp only: rhe_int)
  have "Duration_Seconds d \<le> of_int 9223372037"
    by (rule Duration_Seconds_upper) (use assms in \<open>simp_all add: maxDuration_def Second_def\<close>)
  from rhe_mono [OF this] show "round_half_even (Duration_Seconds d) \<le> 9223372037"
    by (simp only: rhe_int)
qed

lemma Atoi_Sprintf_0f_Duration:
  assumes "minDuration \<le> d" "d \<le> maxDuration"
  shows "Atoi_Sprintf_0f (Duration_Seconds d) = Some (round_half_even (Duration_Seconds d))"
  using whole_seconds_range [OF assms] by (simp add: Atoi_Sprintf_0f_def Let_def)

lemma expired_eq:
  assumes "lookup c name = Some itm"
  shows "expired w c name \<longleftrightarrow>
         ExpireItem c \<le> round_half_even (Duration_Seconds (time_Sub (time_Now w) (Lastaccess itm)))"
  using assms Atoi_Sprintf_0f_Duration [OF time_Sub_range]
  by (simp add: expired_def Let_def)

text \<open>
  Claim C4, as the code has it. For a cached key, \<open>expired\<close> compares \<open>ExpireItem\<close> with the
  age in seconds rounded to the nearest whole number (ties to even), which is what
  \<open>%0.0f\<close> prints. So with \<open>ExpireItem = N > 0\<close> (and \<open>N\<close> seconds a representable
  duration) an entry at least \<open>N\<close> seconds old is stale and an entry at most \<open>N - 1\<close>
  seconds old is not; between the two the rounding decides.
\<close>

theorem expired_whole_seconds:
  assumes "lookup c name = Some itm"
  shows "(expired w c name \<longleftrightarrow>
            ExpireItem c \<le> round_half_even
              (Duration_Seconds (time_Sub (time_Now w) (Lastaccess itm))))
       \<and> (0 < ExpireItem c \<and> ExpireItem c * Second \<le> maxDuration
            \<and> ExpireItem c * Second \<le> time_Now w - Lastaccess itm
          \<longrightarrow> expired w c name)
       \<and> (0 < ExpireItem c \<and> time_Now w - Lastaccess itm \<le> (ExpireItem c - 1) * Second
          \<longrightarrow> \<not> expired w c name)"
proof (intro conjI impI)
  let ?d = "time_Sub (time_Now w) (Lastaccess itm)"
  let ?v = "round_half_even (Duration_Seconds ?d)"
  show eq: "expired w c name \<longleftrightarrow> ExpireItem c \<le> ?v" by (rule expired_eq [OF assms])
  {
    assume h: "0 < ExpireItem c \<and> ExpireItem c * Second \<le> maxDuration
            \<and> ExpireItem c * Second \<le> time_Now w - Lastaccess itm"
    then have d: "ExpireItem c * Second \<le> ?d"
      unfolding time_Sub_def by linarith
    from h have "ExpireItem c \<le> 9223372036" by (simp add: maxDuration_def Second_def)
    with h have "of_int (ExpireItem c) \<le> Duration_Seconds ?d"
      by (intro Duration_Seconds_lower [OF d]) simp
    from rhe_mono [OF this] have "ExpireItem c \<le> ?v" by (simp only: rhe_int)
    then show "expired w c name" by (simp add: eq)
  }
  {
    assume h: "0 < ExpireItem c \<and> time_Now w - Lastaccess itm \<le> (ExpireItem c - 1) * Second"
    have "?v < ExpireItem c"
    proof (cases "ExpireItem c \<le> 9223372037")
      case True
      from h have "minDuration \<le> (ExpireItem c - 1) * Second"
        by (simp add: minDuration_def Second_def)
      with h have d: "?d \<le> (ExpireItem c - 1) * Second"
        unfolding time_Sub_def by linarith
      from h True have "Duration_Seconds ?d \<le> of_int (ExpireItem c - 1)"
        by (intro Duration_Seconds_upper [OF d]) simp
      from rhe_mono [OF this] have "?v \<le> ExpireItem c - 1" by (simp only: rhe_int)
      then show ?thesis by simp
    next
      case False
      with whole_seconds_range(2) [OF time_Sub_range, of "time_Now w" "Lastaccess itm"]
      show ?thesis by simp
    qed
    then show "\<not> expired w c name" by (simp add: eq)
  }
qed

theorem expired_whole_seconds_witness:
  "lookup cache_b ''a'' = Some item_old \<and> 0 < ExpireItem cache_b
   \<and> ExpireItem cache_b * Second \<le> maxDuration
   \<and> ExpireItem cache_b * Second \<le> time_Now world_1s - Lastaccess item_old
   \<and> expired world_1s cache_b ''a''"
proof -
  have l: "lookup cache_b ''a'' = Some item_old"
    by (simp add: lookup_def entries_def cache_b_def cache_a_def)
  have h: "0 < ExpireItem cache_b \<and> ExpireItem cache_b * Second \<le> maxDuration
         \<and> ExpireItem cache_b * Second \<le> time_Now world_1s - Lastaccess item_old"
    by (simp add: cache_b_def cache_a_def world_1s_def world_a_def item_old_def Second_def
        maxDuration_def)
  from expired_whole_seconds [OF l, of world_1s] h have "expired world_1s cache_b ''a''"
    by blast
  with l h show ?thesis by simp
qed

text \<open>Claim C4 as stated fails: with \<open>ExpireItem = 1\<close> an entry that is 0.6 seconds old,
  strictly less than one second, is already stale.\<close>

theorem expired_before_N_seconds:
  "lookup cache_b ''a'' = Some item_old \<and> ExpireItem cache_b = 1
   \<and> time_Now world_a - Lastaccess item_old = 600000000
   \<and> time_Now world_a - Lastaccess item_old < ExpireItem cache_b * Second
   \<and> expired world_a cache_b ''a''"
  by code_simp

section \<open>Population\<close>

lemma map_delete_fields [simp]:
  "MaxSize (map_delete name c) = MaxSize c"
  "MaxItems (map_delete name c) = MaxItems c"
  "ExpireItem (map_delete name c) = ExpireItem c"
  "in_pipe (map_delete name c) = in_pipe c"
  "(items (map_delete name c) = None) = (items c = None)"
  by (simp_all add: map_delete_def)

lemma entries_map_delete: "entries (map_delete k c) = AList.delete k (entries c)"
  by (cases "items c") (simp_all add: entries_def map_delete_def)

lemma lookup_map_delete: "lookup (map_delete k c) name = (if name = k then None else lookup c name)"
  by (cases "items c") (auto simp: lookup_def entries_def map_delete_def delete_conv)

lemma lookup_map_assign:
  "map_assign name v c = Returns c2 \<Longrightarrow> lookup c2 k = (if k = name then Some v else lookup c k)"
  by (auto simp: map_assign_def lookup_def entries_def update_conv' split: option.splits)

lemma add_item_other_keys:
  assumes "add_item w c name = Returns (err, c')" "k \<noteq> name"
  shows "lookup c' k = lookup c k"
  using assms
  by (auto simp: add_item_def Let_def lookup_map_assign lookup_map_delete
      split: if_splits sum.splits prod.splits option.splits outcome.splits)

text \<open>
  Claim C8. \<open>add_item\<close> stores \<open>fi.Size()\<close> in \<open>Size\<close> and the bytes of the later read in
  \<open>Content\<close>. Where the two answers differ the entry has \<open>Size \<noteq> len(Content)\<close>, and
  \<open>WriteItem\<close> then reports \<open>WriteIncomplete\<close> for a writer that took every byte.
\<close>

theorem add_item_Size_from_stat:
  "add_item world_p cache_empty ''p'' = Returns (None, cache_empty\<lparr>items := Some [(''p'', item_p)]\<rparr>)
   \<and> Size item_p = 0 \<and> int (length (Content item_p)) = 3
   \<and> WriteItem (cache_empty\<lparr>items := Some [(''p'', item_p)]\<rparr>) (\<lambda>b. (length b, None)) ''p''
       = Some WriteIncomplete"
  by (simp add: add_item_def InCache_def lookup_def entries_def cache_empty_def
      NewDefaultCache_def item_expired_def changed_def os_Stat_def world_p_def file_p_def
      DefaultMaxSize_def map_assign_def item_p_def WriteItem_def)

section \<open>Eviction\<close>

lemma expire_scan_named:
  assumes "nm \<noteq> []" "[] \<notin> fst ` set es"
  shows "snd (expire_scan True es (old, nm)) \<noteq> []
       \<and> fst (expire_scan True es (old, nm)) \<le> old
       \<and> (\<forall>e \<in> set es. fst (expire_scan True es (old, nm)) \<le> Lastaccess (snd e))
       \<and> (expire_scan True es (old, nm) = (old, nm)
          \<or> (\<exists>itm. (snd (expire_scan True es (old, nm)), itm) \<in> set es
                 \<and> Lastaccess itm = fst (expire_scan True es (old, nm))))"
  using assms
proof (induction es arbitrary: old nm)
  case Nil
  then show ?case by simp
next
  case (Cons e es)
  obtain k itm where e: "e = (k, itm)" by (cases e)
  from Cons.prems e have k: "k \<noteq> []" and rest: "[] \<notin> fst ` set es" by auto
  show ?case
  proof (cases "Lastaccess itm < old")
    case True
    from Cons.IH [OF k rest, of "Lastaccess itm"] True Cons.prems(1) e
    show ?thesis by (auto simp: e)
  next
    case False
    from Cons.IH [OF Cons.prems(1) rest, of old] False Cons.prems(1) e
    show ?thesis by (auto simp: e)
  qed
qed

lemma expire_scan_forced:
  assumes "es \<noteq> []" "[] \<notin> fst ` set es"
  shows "\<exists>k itm. expire_scan True es (t, []) = (Lastaccess itm, k) \<and> k \<noteq> []
           \<and> (k, itm) \<in> set es \<and> (\<forall>e \<in> set es. Lastaccess itm \<le> Lastaccess (snd e))"
proof -
  from assms(1) obtain k0 itm0 rest where es: "es = (k0, itm0) # rest"
    by (cases es) auto
  from assms(2) es have k0: "k0 \<noteq> []" and rest: "[] \<notin> fst ` set rest" by auto
  let ?r = "expire_scan True rest (Lastaccess itm0, k0)"
  have r: "expire_scan True es (t, []) = ?r" by (simp add: es)
  from expire_scan_named [OF k0 rest, of "Lastaccess itm0"]
  have a: "snd ?r \<noteq> []" and b: "fst ?r \<le> Lastaccess itm0"
    and c: "\<forall>e \<in> set rest. fst ?r \<le> Lastaccess (snd e)"
    and d: "?r = (Lastaccess itm0, k0) \<or> (\<exists>itm. (snd ?r, itm) \<in> set rest \<and> Lastaccess itm = fst ?r)"
    by blast+
  have "\<exists>itm. (snd ?r, itm) \<in> set es \<and> Lastaccess itm = fst ?r"
  proof (cases "?r = (Lastaccess itm0, k0)")
    case True
    then show ?thesis by (intro exI [of _ itm0]) (simp add: es)
  next
    case False
    with d show ?thesis by (auto simp: es)
  qed
  then obtain itm where itm: "(snd ?r, itm) \<in> set es" "Lastaccess itm = fst ?r"
    by blast
  have "?r = (Lastaccess itm, snd ?r)" using itm(2) by (cases ?r) simp
  moreover have "\<forall>e \<in> set es. Lastaccess itm \<le> Lastaccess (snd e)"
    using b c itm(2) by (auto simp: es)
  ultimately show ?thesis using a itm(1) r by metis
qed

lemma length_delete_less: "k \<in> fst ` set es \<Longrightarrow> length (AList.delete k es) < length es"
  by (induction es) (auto simp: AList.delete_eq le_imp_less_Suc)

lemma length_delete_distinct:
  "distinct (map fst es) \<Longrightarrow> k \<in> fst ` set es \<Longrightarrow> Suc (length (AList.delete k es)) = length es"
  by (induction es) (auto simp: AList.delete_id image_iff)

lemma length_update_le: "length (AList.update k v es) \<le> length es + 1"
  by (induction es) auto

lemma length_update_absent: "k \<notin> fst ` set es \<Longrightarrow> length (AList.update k v es) = length es + 1"
  by (induction es) auto

lemma expire_oldest_forced:
  assumes "items c = Some es" "es \<noteq> []" "[] \<notin> fst ` set es"
  shows "\<exists>k itm. (k, itm) \<in> set es \<and> (\<forall>e \<in> set es. Lastaccess itm \<le> Lastaccess (snd e))
           \<and> expire_oldest w True c = map_delete k c"
proof -
  from expire_scan_forced [OF assms(2,3), of "time_Now w"]
  obtain k itm where "expire_scan True es (time_Now w, []) = (Lastaccess itm, k)" "k \<noteq> []"
    "(k, itm) \<in> set es" "\<forall>e \<in> set es. Lastaccess itm \<le> Lastaccess (snd e)"
    by blast
  then show ?thesis using assms(1) by (auto simp: expire_oldest_def entries_def)
qed

lemma add_item_returns:
  assumes "items c \<noteq> None"
  shows "\<exists>err c'. add_item w c name = Returns (err, c')
           \<and> cache_Size c' \<le> cache_Size c + 1 \<and> MaxItems c' = MaxItems c \<and> items c' \<noteq> None
           \<and> (\<not> InCache c name \<and> err = None \<longrightarrow> InCache c' name \<and> cache_Size c' = cache_Size c + 1)"
proof -
  from assms obtain es where es: "items c = Some es" by auto
  have up: "\<And>v c1 es1. items c1 = Some es1 \<Longrightarrow>
      map_assign name v c1 = Returns (c1\<lparr>items := Some (AList.update name v es1)\<rparr>)"
    by (simp add: map_assign_def)
  have inc: "\<And>v c1 es1. InCache (c1\<lparr>items := Some (AList.update name v es1)\<rparr>) name"
    by (simp add: InCache_def lookup_def entries_def update_conv')
  show ?thesis
  proof (cases "InCache c name")
    case True
    have d: "items (map_delete name c) = Some (AList.delete name es)"
      by (simp add: map_delete_def es)
    from True have "name \<in> fst ` set es"
      by (auto simp: InCache_def lookup_def entries_def es map_of_eq_None_iff)
    then have l: "length (AList.delete name es) < length es" by (rule length_delete_less)
    have l2: "int (length (AList.update name v (AList.delete name es))) \<le> int (length es) + 1" for v
      using l length_update_le [of name v "AList.delete name es"] by linarith
    show ?thesis
      using True l l2
      by (auto simp: add_item_def Let_def up [OF d] inc cache_Size_def entries_def es d
          split: sum.splits prod.splits option.splits)
  next
    case False
    then have "name \<notin> fst ` set es"
      by (auto simp: InCache_def lookup_def entries_def es map_of_eq_None_iff)
    then have l: "\<And>v. length (AList.update name v es) = length es + 1"
      by (rule length_update_absent)
    show ?thesis
      using False l
      by (auto simp: add_item_def Let_def up [OF es] inc cache_Size_def entries_def es
          split: sum.splits prod.splits option.splits)
  qed
qed

lemma add_item_keeps_names:
  assumes "[] \<notin> fst ` set (entries c)" "add_item w c name = Returns (err, c')"
  shows "[] \<notin> fst ` set (entries c')"
proof (cases "name = []")
  case True
  with assms(2) have "c' = c \<or> c' = map_delete name c"
    by (auto simp: add_item_def Let_def os_Stat_def split: if_splits)
  with assms(1) show ?thesis by (auto simp: entries_map_delete AList.delete_eq)
next
  case False
  have d: "[] \<notin> fst ` set (entries (map_delete name c))"
    using assms(1) by (auto simp: entries_map_delete AList.delete_eq)
  have u: "[] \<notin> fst ` set (entries c2)"
    if "map_assign name v c1 = Returns c2" "[] \<notin> fst ` set (entries c1)" for v c1 c2
  proof -
    have "[] \<in> fst ` set (AList.update name v es) \<longleftrightarrow> [] = name \<or> [] \<in> fst ` set es" for es
      using dom_update [of name v es] by (simp add: dom_map_of_conv_image_fst)
    note key = this
    from that(1) obtain es where "items c1 = Some es" "c2 = c1\<lparr>items := Some (AList.update name v es)\<rparr>"
      by (auto simp: map_assign_def split: option.splits)
    then have "entries c2 = AList.update name v es" "entries c1 = es"
      by (simp_all add: entries_def)
    with key [of es] that(2) False show ?thesis by simp
  qed
  from assms d u show ?thesis
    by (auto simp: add_item_def Let_def split: if_splits sum.splits prod.splits option.splits
        outcome.splits)
qed

lemma expire_oldest_empty: "entries c = [] \<Longrightarrow> expire_oldest w True c = c"
  by (simp add: expire_oldest_def)

text \<open>
  Claim C2, as the code has it. When \<open>stat\<close> reports a regular file larger than
  \<open>MaxSize\<close>, \<open>add_item\<close> on a key that is not cached reports \<open>ItemTooLarge\<close> and leaves
  the cache as it was. When the key is cached, the answer depends on the entry: a stale
  entry is deleted and \<open>ItemTooLarge\<close> reported, a fresh one is kept and \<open>nil\<close> returned.
  \<open>CacheNow\<close> does the same while the count differs from \<open>MaxItems\<close>. When the count
  equals \<open>MaxItems\<close> it first runs the forced eviction, which takes nothing from an empty
  store and one entry with the smallest \<open>Lastaccess\<close> from any other, and then does on
  the remaining store what \<open>add_item\<close> does there.
\<close>

theorem add_item_too_large:
  assumes "os_Stat w name = Inr fi" "\<not> fi_IsDir fi" "MaxSize c < fi_Size fi"
  shows "add_item w c name =
           Returns (if InCache c name \<and> \<not> item_expired w c name then None else Some ItemTooLarge,
                    if InCache c name \<and> item_expired w c name then map_delete name c else c)
       \<and> (\<not> InCache c name \<longrightarrow> add_item w c name = Returns (Some ItemTooLarge, c))
       \<and> (\<not> InCache c name \<and> cache_Size c \<noteq> MaxItems c
            \<longrightarrow> CacheNow w c name = Returns (Some ItemTooLarge, c))
       \<and> (cache_Size c \<noteq> MaxItems c \<longrightarrow>
            CacheNow w c name =
              Returns (if InCache c name \<and> \<not> item_expired w c name then None
                       else Some ItemTooLarge,
                       if InCache c name \<and> item_expired w c name then map_delete name c else c))
       \<and> (cache_Size c = MaxItems c \<and> entries c = [] \<longrightarrow>
            CacheNow w c name = Returns (Some ItemTooLarge, c))
       \<and> (cache_Size c = MaxItems c \<and> items c = Some es \<and> es \<noteq> []
            \<and> distinct (map fst es) \<and> [] \<notin> fst ` set es \<longrightarrow>
            (\<exists>k itm. (k, itm) \<in> set es
               \<and> (\<forall>e \<in> set es. Lastaccess itm \<le> Lastaccess (snd e))
               \<and> expire_oldest w True c = map_delete k c
               \<and> CacheNow w c name =
                   Returns (if InCache (map_delete k c) name
                               \<and> \<not> item_expired w (map_delete k c) name
                            then None else Some ItemTooLarge,
                            if InCache (map_delete k c) name
                               \<and> item_expired w (map_delete k c) name
                            then map_delete name (map_delete k c) else map_delete k c)))"
proof -
  have A: "add_item w c0 name =
           Returns (if InCache c0 name \<and> \<not> item_expired w c0 name then None else Some ItemTooLarge,
                    if InCache c0 name \<and> item_expired w c0 name then map_delete name c0 else c0)"
    if "MaxSize c0 = MaxSize c" for c0
    using assms that by (simp add: add_item_def Let_def)
  have B: "CacheNow w c name = add_item w c name" if "cache_Size c \<noteq> MaxItems c"
    using that by (simp add: CacheNow_def)
  have C: "CacheNow w c name = Returns (Some ItemTooLarge, c)"
    if "cache_Size c = MaxItems c \<and> entries c = []"
  proof -
    from that have "\<not> InCache c name" by (simp add: InCache_def lookup_def)
    with that A [of c] show ?thesis by (simp add: CacheNow_def expire_oldest_empty)
  qed
  have D: "\<exists>k itm. (k, itm) \<in> set es
               \<and> (\<forall>e \<in> set es. Lastaccess itm \<le> Lastaccess (snd e))
               \<and> expire_oldest w True c = map_delete k c
               \<and> CacheNow w c name =
                   Returns (if InCache (map_delete k c) name
                               \<and> \<not> item_expired w (map_delete k c) name
                            then None else Some ItemTooLarge,
                            if InCache (map_delete k c) name
                               \<and> item_expired w (map_delete k c) name
                            then map_delete name (map_delete k c) else map_delete k c)"
    if h: "cache_Size c = MaxItems c \<and> items c = Some es \<and> es \<noteq> []
            \<and> distinct (map fst es) \<and> [] \<notin> fst ` set es"
  proof -
    from h have i: "items c = Some es" and ne: "es \<noteq> []" and n: "[] \<notin> fst ` set es"
      by simp_all
    from expire_oldest_forced [OF i ne n, of w]
    obtain k itm where k: "(k, itm) \<in> set es"
      "\<forall>e \<in> set es. Lastaccess itm \<le> Lastaccess (snd e)"
      "expire_oldest w True c = map_delete k c"
      by blast
    from h k(3) have "CacheNow w c name = add_item w (map_delete k c) name"
      by (simp add: CacheNow_def)
    with A [of "map_delete k c"] k show ?thesis by auto
  qed
  from A [of c] B C D show ?thesis by simp
qed

text \<open>The file \<open>a\<close> of three bytes against a limit of two, on a store of two entries at
  its ceiling of two: \<open>add_item\<close> changes nothing, \<open>CacheNow\<close> evicts \<open>b\<close> first.\<close>

theorem add_item_too_large_witness:
  "os_Stat world_a ''a'' = Inr file_a \<and> \<not> fi_IsDir file_a
   \<and> MaxSize cache_two_small < fi_Size file_a
   \<and> cache_Size cache_two_small = MaxItems cache_two_small
   \<and> items cache_two_small = Some [(''b'', item_old), (''c'', item_old)]
   \<and> add_item world_a cache_two_small ''a'' = Returns (Some ItemTooLarge, cache_two_small)
   \<and> CacheNow world_a cache_two_small ''a''
       = Returns (Some ItemTooLarge, cache_two_small\<lparr>items := Some [(''c'', item_old)]\<rparr>)"
proof -
  have s: "os_Stat world_a ''a'' = Inr file_a" by (simp add: os_Stat_def world_a_def)
  have d: "\<not> fi_IsDir file_a" by (simp add: file_a_def)
  have m: "MaxSize cache_two_small < fi_Size file_a"
    by (simp add: file_a_def cache_two_small_def)
  have i: "items cache_two_small = Some [(''b'', item_old), (''c'', item_old)]"
    by (simp add: cache_two_small_def cache_two_def)
  have z: "cache_Size cache_two_small = MaxItems cache_two_small"
    by (simp add: cache_Size_def entries_def cache_two_small_def cache_two_def)
  have n: "\<not> InCache cache_two_small ''a''"
    by (simp add: InCache_def lookup_def entries_def i)
  have e: "expire_oldest world_a True cache_two_small
             = cache_two_small\<lparr>items := Some [(''c'', item_old)]\<rparr>"
    by (simp add: expire_oldest_def entries_def i map_delete_def)
  have n': "\<not> InCache (cache_two_small\<lparr>items := Some [(''c'', item_old)]\<rparr>) ''a''"
    by (simp add: InCache_def lookup_def entries_def)
  from add_item_too_large [OF s d m, of "[(''b'', item_old), (''c'', item_old)]"] i z
  obtain k where "expire_oldest world_a True cache_two_small = map_delete k cache_two_small"
    "CacheNow world_a cache_two_small ''a'' =
       Returns (if InCache (map_delete k cache_two_small) ''a''
                   \<and> \<not> item_expired world_a (map_delete k cache_two_small) ''a''
                then None else Some ItemTooLarge,
                if InCache (map_delete k cache_two_small) ''a''
                   \<and> item_expired world_a (map_delete k cache_two_small) ''a''
                then map_delete ''a'' (map_delete k cache_two_small)
                else map_delete k cache_two_small)"
    by auto
  with e n' have c: "CacheNow world_a cache_two_small ''a''
       = Returns (Some ItemTooLarge, cache_two_small\<lparr>items := Some [(''c'', item_old)]\<rparr>)"
    by simp
  from add_item_too_large [OF s d m, of "[]"] n
  have a: "add_item world_a cache_two_small ''a'' = Returns (Some ItemTooLarge, cache_two_small)"
    by blast
  from s d m z i a c show ?thesis by simp
qed

text \<open>Claim C2 as stated fails: with a stale entry for \<open>a\<close> in the store, populating the
  too large \<open>a\<close> reports \<open>ItemTooLarge\<close> and the store loses the entry.\<close>

theorem add_item_too_large_deletes_stale:
  "os_Stat world_a ''a'' = Inr file_a \<and> \<not> fi_IsDir file_a
   \<and> MaxSize cache_small < fi_Size file_a
   \<and> InCache cache_small ''a''
   \<and> add_item world_a cache_small ''a'' = Returns (Some ItemTooLarge, cache_small\<lparr>items := Some []\<rparr>)
   \<and> CacheNow world_a cache_small ''a'' = Returns (Some ItemTooLarge, cache_small\<lparr>items := Some []\<rparr>)
   \<and> items cache_small \<noteq> Some []"
  by (simp add: add_item_def CacheNow_def InCache_def lookup_def entries_def cache_small_def cache_a_def
      item_expired_def changed_def os_Stat_def world_a_def file_a_def item_old_def
      map_delete_def cache_Size_def expire_oldest_def)

text \<open>
  Claim C3, as the code has it. On a started cache with \<open>MaxItems \<ge> 1\<close>, no entry under
  the empty name and at most \<open>MaxItems\<close> entries: when the count equals \<open>MaxItems\<close>,
  \<open>CacheNow\<close> first evicts exactly one entry, one whose \<open>Lastaccess\<close> is smallest (the
  first entry visited when all are equal), and then populates, so that every entry under
  a key other than the evicted one and the populated one stays as it was; when the count
  is below \<open>MaxItems\<close>, \<open>CacheNow\<close> is \<open>add_item\<close> alone and every entry under a key other
  than the populated one stays as it was; in both cases the call returns with at most
  \<open>MaxItems\<close> entries.
\<close>

theorem CacheNow_evicts_oldest:
  assumes "items c = Some es" "distinct (map fst es)" "[] \<notin> fst ` set es"
    and "1 \<le> MaxItems c" "cache_Size c \<le> MaxItems c"
  shows "(cache_Size c = MaxItems c \<longrightarrow>
            (\<exists>k itm. (k, itm) \<in> set es
               \<and> (\<forall>e \<in> set es. Lastaccess itm \<le> Lastaccess (snd e))
               \<and> expire_oldest w True c = map_delete k c
               \<and> items (expire_oldest w True c) = Some (AList.delete k es)
               \<and> cache_Size (expire_oldest w True c) = cache_Size c - 1
               \<and> CacheNow w c name = add_item w (map_delete k c) name
               \<and> (\<forall>err c' k'. CacheNow w c name = Returns (err, c') \<and> k' \<noteq> k \<and> k' \<noteq> name
                     \<longrightarrow> lookup c' k' = lookup c k')))
       \<and> (cache_Size c < MaxItems c \<longrightarrow>
            CacheNow w c name = add_item w c name
          \<and> (\<forall>err c' k'. CacheNow w c name = Returns (err, c') \<and> k' \<noteq> name
                \<longrightarrow> lookup c' k' = lookup c k'))
       \<and> (\<exists>err c'. CacheNow w c name = Returns (err, c') \<and> cache_Size c' \<le> MaxItems c')"
proof (cases "cache_Size c = MaxItems c")
  case True
  with assms(1,4) have ne: "es \<noteq> []" by (auto simp: cache_Size_def entries_def)
  from expire_oldest_forced [OF assms(1) ne assms(3), of w]
  obtain k itm where k: "(k, itm) \<in> set es" "\<forall>e \<in> set es. Lastaccess itm \<le> Lastaccess (snd e)"
    "expire_oldest w True c = map_delete k c"
    by blast
  from k(1) have kin: "k \<in> fst ` set es" by force
  have it: "items (map_delete k c) = Some (AList.delete k es)"
    by (simp add: map_delete_def assms(1))
  have sz: "cache_Size (map_delete k c) = cache_Size c - 1"
    using length_delete_distinct [OF assms(2) kin]
    by (simp add: cache_Size_def entries_def it assms(1))
  have cn: "CacheNow w c name = add_item w (map_delete k c) name"
    using True k(3) by (simp add: CacheNow_def)
  have fr: "lookup c' k' = lookup c k'"
    if "CacheNow w c name = Returns (err, c') \<and> k' \<noteq> k \<and> k' \<noteq> name" for err c' k'
  proof -
    from that cn have "add_item w (map_delete k c) name = Returns (err, c')" "k' \<noteq> name"
      by simp_all
    from add_item_other_keys [OF this] that show ?thesis by (simp add: lookup_map_delete)
  qed
  from it have "items (map_delete k c) \<noteq> None" by simp
  from add_item_returns [OF this, of w name]
  obtain err c' where r: "add_item w (map_delete k c) name = Returns (err, c')"
    "cache_Size c' \<le> cache_Size (map_delete k c) + 1" "MaxItems c' = MaxItems (map_delete k c)"
    by blast
  from r sz True have "cache_Size c' \<le> MaxItems c'" by simp
  with r(1) cn have "\<exists>err c'. CacheNow w c name = Returns (err, c') \<and> cache_Size c' \<le> MaxItems c'"
    by auto
  moreover from k it sz cn fr have "\<exists>k itm. (k, itm) \<in> set es
               \<and> (\<forall>e \<in> set es. Lastaccess itm \<le> Lastaccess (snd e))
               \<and> expire_oldest w True c = map_delete k c
               \<and> items (expire_oldest w True c) = Some (AList.delete k es)
               \<and> cache_Size (expire_oldest w True c) = cache_Size c - 1
               \<and> CacheNow w c name = add_item w (map_delete k c) name
               \<and> (\<forall>err c' k'. CacheNow w c name = Returns (err, c') \<and> k' \<noteq> k \<and> k' \<noteq> name
                     \<longrightarrow> lookup c' k' = lookup c k')"
    by (intro exI [of _ k] exI [of _ itm]) simp
  ultimately show ?thesis using True by simp
next
  case False
  then have cn: "CacheNow w c name = add_item w c name" by (simp add: CacheNow_def)
  have fr: "lookup c' k' = lookup c k'"
    if "CacheNow w c name = Returns (err, c') \<and> k' \<noteq> name" for err c' k'
  proof -
    from that cn have "add_item w c name = Returns (err, c')" "k' \<noteq> name" by simp_all
    then show ?thesis by (rule add_item_other_keys)
  qed
  from assms(1) have "items c \<noteq> None" by simp
  from add_item_returns [OF this, of w name]
  obtain err c' where r: "add_item w c name = Returns (err, c')"
    "cache_Size c' \<le> cache_Size c + 1" "MaxItems c' = MaxItems c"
    by blast
  from r False assms(5) have "cache_Size c' \<le> MaxItems c'" by simp
  with r(1) cn have "\<exists>err c'. CacheNow w c name = Returns (err, c') \<and> cache_Size c' \<le> MaxItems c'"
    by auto
  with False cn fr show ?thesis by simp
qed

text \<open>Two entries of the same age at the ceiling of two: the first one visited goes and
  the other stays. The same store with room for a third entry: both stay.\<close>

theorem CacheNow_evicts_oldest_witness:
  "items cache_two = Some [(''b'', item_old), (''c'', item_old)]
   \<and> cache_Size cache_two = MaxItems cache_two
   \<and> expire_oldest world_a True cache_two = cache_two\<lparr>items := Some [(''c'', item_old)]\<rparr>
   \<and> CacheNow world_a cache_two ''a''
       = Returns (None, cache_two\<lparr>items := Some [(''c'', item_old), (''a'', item_new)]\<rparr>)
   \<and> (\<exists>err c'. CacheNow world_a cache_two ''a'' = Returns (err, c')
         \<and> cache_Size c' \<le> MaxItems c' \<and> lookup c' ''c'' = lookup cache_two ''c'')
   \<and> items cache_three = Some [(''b'', item_old), (''c'', item_old)]
   \<and> cache_Size cache_three < MaxItems cache_three
   \<and> CacheNow world_a cache_three ''a''
       = Returns (None, cache_three\<lparr>items := Some [(''b'', item_old), (''c'', item_old), (''a'', item_new)]\<rparr>)
   \<and> (\<exists>err c'. CacheNow world_a cache_three ''a'' = Returns (err, c')
         \<and> lookup c' ''b'' = lookup cache_three ''b''
         \<and> lookup c' ''c'' = lookup cache_three ''c'')"
proof -
  let ?es = "[(''b'', item_old), (''c'', item_old)]"
  have a: "items cache_two = Some ?es" by (simp add: cache_two_def)
  have a3: "items cache_three = Some ?es" by (simp add: cache_three_def cache_two_def)
  have b: "distinct (map fst ?es)" by simp
  have c: "[] \<notin> fst ` set ?es" by simp
  have d: "1 \<le> MaxItems cache_two" "1 \<le> MaxItems cache_three"
    by (simp_all add: cache_three_def cache_two_def)
  have e: "cache_Size cache_two \<le> MaxItems cache_two" "cache_Size cache_three \<le> MaxItems cache_three"
    by (simp_all add: cache_three_def cache_two_def cache_Size_def entries_def)
  have f: "cache_Size cache_two = MaxItems cache_two"
    by (simp add: cache_two_def cache_Size_def entries_def)
  have f3: "cache_Size cache_three < MaxItems cache_three"
    by (simp add: cache_three_def cache_two_def cache_Size_def entries_def)
  have g: "expire_oldest world_a True cache_two = cache_two\<lparr>items := Some [(''c'', item_old)]\<rparr>"
    by (simp add: expire_oldest_def entries_def cache_two_def map_delete_def)
  have r: "CacheNow world_a cache_two ''a''
       = Returns (None, cache_two\<lparr>items := Some [(''c'', item_old), (''a'', item_new)]\<rparr>)"
  proof -
    have "CacheNow world_a cache_two ''a''
            = add_item world_a (cache_two\<lparr>items := Some [(''c'', item_old)]\<rparr>) ''a''"
      by (simp add: CacheNow_def f g)
    also have "\<dots> = Returns (None, cache_two\<lparr>items := Some [(''c'', item_old), (''a'', item_new)]\<rparr>)"
      by (simp add: add_item_def InCache_def lookup_def entries_def
          item_expired_def changed_def os_Stat_def world_a_def file_a_def map_assign_def
          item_new_def cache_two_def cache_a_def)
    finally show ?thesis .
  qed
  have r3: "CacheNow world_a cache_three ''a''
       = Returns (None, cache_three\<lparr>items := Some [(''b'', item_old), (''c'', item_old), (''a'', item_new)]\<rparr>)"
    using f3
    by (simp add: CacheNow_def add_item_def InCache_def lookup_def entries_def
        item_expired_def changed_def os_Stat_def world_a_def file_a_def map_assign_def
        item_new_def cache_three_def cache_two_def cache_a_def)
  have l: "lookup (cache_two\<lparr>items := Some [(''c'', item_old), (''a'', item_new)]\<rparr>) ''c''
             = lookup cache_two ''c''"
    by (simp add: lookup_def entries_def cache_two_def)
  from CacheNow_evicts_oldest [OF a b c d(1) e(1), of world_a "''a''"]
  have "\<exists>err c'. CacheNow world_a cache_two ''a'' = Returns (err, c') \<and> cache_Size c' \<le> MaxItems c'"
    by blast
  with r l have p: "\<exists>err c'. CacheNow world_a cache_two ''a'' = Returns (err, c')
         \<and> cache_Size c' \<le> MaxItems c' \<and> lookup c' ''c'' = lookup cache_two ''c''"
    by auto
  from CacheNow_evicts_oldest [OF a3 b c d(2) e(2), of world_a "''a''"] f3
  have "\<forall>err c' k'. CacheNow world_a cache_three ''a'' = Returns (err, c') \<and> k' \<noteq> ''a''
          \<longrightarrow> lookup c' k' = lookup cache_three k'"
    by blast
  with r3 have q: "\<exists>err c'. CacheNow world_a cache_three ''a'' = Returns (err, c')
         \<and> lookup c' ''b'' = lookup cache_three ''b''
         \<and> lookup c' ''c'' = lookup cache_three ''c''"
    by auto
  from a f g r p a3 f3 r3 q show ?thesis by blast
qed

text \<open>Claim C3 as stated fails: with \<open>MaxItems = 0\<close> there is nothing to evict and the
  insertion leaves one entry; and with the count already above \<open>MaxItems\<close> the test
  \<open>Size() == MaxItems\<close> is false, nothing is evicted and the count grows.\<close>

theorem CacheNow_exceeds_MaxItems:
  "MaxItems cache_zero = 0 \<and> cache_Size cache_zero = 0
   \<and> expire_oldest world_a True cache_zero = cache_zero
   \<and> CacheNow world_a cache_zero ''a'' = Returns (None, cache_zero\<lparr>items := Some [(''a'', item_new)]\<rparr>)
   \<and> cache_Size (cache_zero\<lparr>items := Some [(''a'', item_new)]\<rparr>) = 1
   \<and> MaxItems cache_over = 1 \<and> cache_Size cache_over = 2
   \<and> CacheNow world_a cache_over ''a''
       = Returns (None, cache_over\<lparr>items := Some [(''b'', item_old), (''c'', item_old), (''a'', item_new)]\<rparr>)"
  by (simp add: cache_zero_def NewCache_def cache_Size_def entries_def expire_oldest_def
      CacheNow_def add_item_def InCache_def lookup_def item_expired_def changed_def
      os_Stat_def world_a_def file_a_def map_assign_def item_new_def cache_over_def cache_a_def)

section \<open>The maintenance loop\<close>

lemma item_expired_cong:
  "lookup c k = lookup c' k \<Longrightarrow> ExpireItem c = ExpireItem c' \<Longrightarrow>
   item_expired w c k = item_expired w c' k"
  by (auto simp: item_expired_def changed_def expired_def split: option.splits)

lemma sweep_fold:
  "lookup (foldl (\<lambda>c' name. if item_expired w c' name then map_delete name c' else c') c ks) k
     = (if k \<in> set ks \<and> item_expired w c k then None else lookup c k)
   \<and> ExpireItem (foldl (\<lambda>c' name. if item_expired w c' name then map_delete name c' else c') c ks)
     = ExpireItem c
   \<and> MaxItems (foldl (\<lambda>c' name. if item_expired w c' name then map_delete name c' else c') c ks)
     = MaxItems c
   \<and> (items (foldl (\<lambda>c' name. if item_expired w c' name then map_delete name c' else c') c ks) = None
      \<longleftrightarrow> items c = None)
   \<and> set (entries (foldl (\<lambda>c' name. if item_expired w c' name then map_delete name c' else c') c ks))
      \<subseteq> set (entries c)"
proof (induction ks arbitrary: c)
  case Nil
  then show ?case by simp
next
  case (Cons k0 ks)
  show ?case
  proof (cases "item_expired w c k0")
    case True
    have e: "item_expired w (map_delete k0 c) k = item_expired w c k" if "k \<noteq> k0"
      using that by (intro item_expired_cong) (simp_all add: lookup_map_delete)
    have s: "set (entries (map_delete k0 c)) \<subseteq> set (entries c)"
      by (auto simp: entries_map_delete AList.delete_eq)
    from Cons.IH [of "map_delete k0 c"] True e s show ?thesis
      by (auto simp: lookup_map_delete)
  next
    case False
    with Cons.IH [of c] show ?thesis by auto
  qed
qed

lemma InCache_keys: "InCache c k \<Longrightarrow> k \<in> set (map fst (entries c))"
  by (auto simp: InCache_def lookup_def map_of_eq_None_iff)

lemma sweep_post:
  assumes "InCache (sweep w c) k"
  shows "\<not> item_expired w (sweep w c) k" and "lookup (sweep w c) k = lookup c k"
proof -
  let ?ks = "map fst (entries c)"
  from sweep_fold [of w c ?ks k]
  have l: "lookup (sweep w c) k = (if k \<in> set ?ks \<and> item_expired w c k then None else lookup c k)"
    and x: "ExpireItem (sweep w c) = ExpireItem c"
    by (simp_all add: sweep_def)
  from assms l have ne: "lookup c k \<noteq> None" and eq: "lookup (sweep w c) k = lookup c k"
    by (auto simp: InCache_def split: if_splits)
  from ne have "k \<in> set ?ks" by (intro InCache_keys) (simp add: InCache_def)
  with assms l have "\<not> item_expired w c k" by (auto simp: InCache_def split: if_splits)
  with item_expired_cong [OF eq x, of w] show "\<not> item_expired w (sweep w c) k" by simp
  show "lookup (sweep w c) k = lookup c k" by (rule eq)
qed

lemma sweep_frame:
  "MaxItems (sweep w c) = MaxItems c" "ExpireItem (sweep w c) = ExpireItem c"
  "(items (sweep w c) = None) = (items c = None)"
  "set (entries (sweep w c)) \<subseteq> set (entries c)"
  using sweep_fold [of w c "map fst (entries c)"] by (simp_all add: sweep_def)

lemma expire_oldest_frame:
  "MaxItems (expire_oldest w f c) = MaxItems c"
  "ExpireItem (expire_oldest w f c) = ExpireItem c"
  "lookup (expire_oldest w f c) k = None \<or> lookup (expire_oldest w f c) k = lookup c k"
  by (auto simp: expire_oldest_def lookup_map_delete split: prod.splits)

lemma evict_loop_post:
  assumes "evict_loop w c = Some c'"
  shows "cache_Size c' \<le> MaxItems c' \<and> MaxItems c' = MaxItems c \<and> ExpireItem c' = ExpireItem c
       \<and> (\<forall>k. lookup c' k = None \<or> lookup c' k = lookup c k)"
proof -
  let ?P = "\<lambda>(w::world) c c'. cache_Size c' \<le> MaxItems c' \<and> MaxItems c' = MaxItems c
              \<and> ExpireItem c' = ExpireItem c
              \<and> (\<forall>k. lookup c' k = None \<or> lookup c' k = lookup c k)"
  have "?P w c c'"
  proof (rule evict_loop.raw_induct [where P = ?P])
    show "evict_loop w c = Some c'" by (rule assms)
  next
    fix loop w c c'
    assume IH: "\<And>w c y. loop w c = Some y \<Longrightarrow> ?P w c y"
      and eq: "(if MaxItems c < cache_Size c then loop w (expire_oldest w True c) else Some c)
               = Some c'"
    show "?P w c c'"
    proof (cases "MaxItems c < cache_Size c")
      case True
      with eq have "loop w (expire_oldest w True c) = Some c'" by simp
      from IH [OF this]
      have a: "cache_Size c' \<le> MaxItems c'" "MaxItems c' = MaxItems (expire_oldest w True c)"
        "ExpireItem c' = ExpireItem (expire_oldest w True c)"
        and b: "\<And>k. lookup c' k = None \<or> lookup c' k = lookup (expire_oldest w True c) k"
        by blast+
      have "lookup c' k = None \<or> lookup c' k = lookup c k" for k
        using b [of k] expire_oldest_frame(3) [of w True c k] by auto
      with a show ?thesis by (simp add: expire_oldest_frame(1,2))
    next
      case False
      with eq show ?thesis by auto
    qed
  qed
  then show ?thesis .
qed

lemma evict_loop_returns:
  assumes "items c = Some es" "[] \<notin> fst ` set es" "0 \<le> MaxItems c"
  shows "\<exists>c'. evict_loop w c = Some c'"
  using assms
proof (induction "length es" arbitrary: c es rule: less_induct)
  case less
  show ?case
  proof (cases "cache_Size c > MaxItems c")
    case False
    then show ?thesis by (subst evict_loop.simps) simp
  next
    case True
    with less.prems have ne: "es \<noteq> []" by (auto simp: cache_Size_def entries_def)
    from expire_oldest_forced [OF less.prems(1) ne less.prems(2), of w]
    obtain k itm where k: "(k, itm) \<in> set es" "expire_oldest w True c = map_delete k c"
      by blast
    from k(1) have "k \<in> fst ` set es" by force
    then have l: "length (AList.delete k es) < length es" by (rule length_delete_less)
    have i: "items (map_delete k c) = Some (AList.delete k es)"
      by (simp add: map_delete_def less.prems(1))
    have n: "[] \<notin> fst ` set (AList.delete k es)"
      using less.prems(2) by (auto simp: AList.delete_eq)
    from less.hyps [OF l i n] less.prems(3)
    obtain c' where "evict_loop w (map_delete k c) = Some c'" by auto
    with True k(2) show ?thesis by (subst evict_loop.simps) simp
  qed
qed

text \<open>With a negative \<open>MaxItems\<close> the eviction loop never ends: the count of an empty map
  still exceeds it.\<close>

lemma evict_loop_negative_MaxItems:
  assumes "MaxItems c < 0"
  shows "evict_loop w c = None"
proof (cases "evict_loop w c")
  case None
  then show ?thesis .
next
  case (Some c')
  from evict_loop_post [OF Some] assms have "cache_Size c' < 0" by simp
  then show ?thesis by (simp add: cache_Size_def)
qed

text \<open>
  Claim C7. When one pass of the loop body of \<open>vaccuum\<close> on a started cache ends, no key
  left in the store is expired by \<open>item_expired\<close> and the store holds at most \<open>MaxItems\<close>
  entries. The pass does end when \<open>MaxItems\<close> is not negative and no entry stands under
  the empty name.
\<close>

theorem vaccuum_cycle_post:
  "(vaccuum_cycle w c = Some (LoopAgain c') \<longrightarrow>
      (\<forall>k. InCache c' k \<longrightarrow> \<not> item_expired w c' k) \<and> cache_Size c' \<le> MaxItems c')
   \<and> (items c \<noteq> None \<and> 0 \<le> MaxItems c \<and> [] \<notin> fst ` set (entries c) \<longrightarrow>
        (\<exists>c''. vaccuum_cycle w c = Some (LoopAgain c'')))"
proof (intro conjI impI allI)
  assume v: "vaccuum_cycle w c = Some (LoopAgain c')"
  then have e: "evict_loop w (sweep w c) = Some c'"
    by (auto simp: vaccuum_cycle_def split: if_splits)
  from evict_loop_post [OF e]
  have p: "cache_Size c' \<le> MaxItems c'" "ExpireItem c' = ExpireItem (sweep w c)"
    "\<And>k. lookup c' k = None \<or> lookup c' k = lookup (sweep w c) k"
    by blast+
  show "cache_Size c' \<le> MaxItems c'" by (rule p(1))
  fix k
  assume k: "InCache c' k"
  with p(3) [of k] have eq: "lookup c' k = lookup (sweep w c) k" by (auto simp: InCache_def)
  with k have "InCache (sweep w c) k" by (simp add: InCache_def)
  from sweep_post(1) [OF this] item_expired_cong [OF eq p(2), of w]
  show "\<not> item_expired w c' k" by simp
next
  assume h: "items c \<noteq> None \<and> 0 \<le> MaxItems c \<and> [] \<notin> fst ` set (entries c)"
  from h sweep_frame(3) [of w c] obtain es where es: "items (sweep w c) = Some es" by auto
  then have "entries (sweep w c) = es" by (simp add: entries_def)
  with sweep_frame(4) [of w c] h have n: "[] \<notin> fst ` set es" by auto
  from h have m: "0 \<le> MaxItems (sweep w c)" by (simp add: sweep_frame)
  from evict_loop_returns [OF es n m, of w] h
  show "\<exists>c''. vaccuum_cycle w c = Some (LoopAgain c'')"
    by (auto simp: vaccuum_cycle_def)
qed

text \<open>A fresh entry for \<open>a\<close> and an entry for the missing file \<open>b\<close>: the pass keeps the
  first and deletes the second.\<close>

theorem vaccuum_cycle_post_witness:
  "items cache_ab \<noteq> None \<and> 0 \<le> MaxItems cache_ab
   \<and> vaccuum_cycle world_a cache_ab = Some (LoopAgain (cache_ab\<lparr>items := Some [(''a'', item_new)]\<rparr>))
   \<and> InCache (cache_ab\<lparr>items := Some [(''a'', item_new)]\<rparr>) ''a''
   \<and> \<not> item_expired world_a (cache_ab\<lparr>items := Some [(''a'', item_new)]\<rparr>) ''a''
   \<and> cache_Size (cache_ab\<lparr>items := Some [(''a'', item_new)]\<rparr>)
       \<le> MaxItems (cache_ab\<lparr>items := Some [(''a'', item_new)]\<rparr>)"
proof -
  let ?c' = "cache_ab\<lparr>items := Some [(''a'', item_new)]\<rparr>"
  have s: "sweep world_a cache_ab = ?c'"
    by (simp add: sweep_def entries_def cache_ab_def cache_a_def item_expired_def changed_def
        lookup_def os_Stat_def world_a_def file_a_def item_new_def item_old_def map_delete_def)
  have e: "evict_loop world_a ?c' = Some ?c'"
    by (subst evict_loop.simps) (simp add: cache_Size_def entries_def cache_ab_def cache_a_def)
  have v: "vaccuum_cycle world_a cache_ab = Some (LoopAgain ?c')"
    by (simp add: vaccuum_cycle_def s e) (simp add: cache_ab_def)
  have i: "InCache ?c' ''a''" by (simp add: InCache_def lookup_def entries_def)
  have h: "items cache_ab \<noteq> None \<and> 0 \<le> MaxItems cache_ab"
    by (simp add: cache_ab_def cache_a_def)
  from vaccuum_cycle_post [of world_a cache_ab ?c'] v i h show ?thesis by blast
qed

section \<open>Cache hits\<close>

lemma add_item_frame:
  assumes "add_item w c name = Returns (err, c')" "lookup c' k = Some itm'"
  shows "lookup c k = Some itm' \<or> (k = name \<and> Lastaccess itm' = time_Now w)"
proof -
  have d: "lookup (map_delete name c) k = Some itm' \<Longrightarrow> lookup c k = Some itm'"
    by (simp add: lookup_map_delete split: if_splits)
  from assms d show ?thesis
    by (auto simp: add_item_def Let_def lookup_map_assign
        split: if_splits sum.splits prod.splits option.splits outcome.splits)
qed

text \<open>
  Claim C9. A read of a cached key (\<open>ReadFile\<close>, \<open>ReadFileString\<close>, \<open>GetItem\<close>,
  \<open>GetItemString\<close>) returns the cached content, starts no population and leaves the whole
  cache as it was: no field of any entry, \<open>Lastaccess\<close> included, is written. After an
  \<open>add_item\<close> the entry of the key is the one it was, or one that this call built for
  the key with \<open>Lastaccess = time.Now()\<close>.
\<close>

theorem cache_hit_frame:
  assumes "lookup c name = Some itm"
  shows "ReadFile w c name = ((Content itm, None), c, [])
       \<and> ReadFileString w c name = ((Content itm, None), c, [])
       \<and> GetItem c name = (Content itm, True)
       \<and> GetItemString c name = (Content itm, True)
       \<and> (\<forall>n err c' itm'. add_item w c n = Returns (err, c') \<and> lookup c' name = Some itm' \<longrightarrow>
             itm' = itm \<or> (n = name \<and> Lastaccess itm' = time_Now w))"
proof -
  have "itm' = itm \<or> (n = name \<and> Lastaccess itm' = time_Now w)"
    if "add_item w c n = Returns (err, c')" "lookup c' name = Some itm'" for n err c' itm'
    using add_item_frame [OF that] assms by auto
  with assms show ?thesis
    by (simp add: ReadFile_def ReadFileString_def GetItem_def GetItemString_def InCache_def)
qed

theorem cache_hit_frame_witness:
  "lookup cache_a ''a'' = Some item_old
   \<and> ReadFile world_a cache_a ''a'' = ((''ab'', None), cache_a, [])
   \<and> GetItem cache_a ''a'' = (''ab'', True)"
  using cache_hit_frame [of cache_a "''a''" item_old world_a]
  by (simp add: lookup_def entries_def cache_a_def item_old_def)

end
